theory Spec2Isabelle
  imports Main "HOL-Library.Sublist"
begin

section \<open>Strings of the host language\<close>

text \<open>
  The program is TypeScript. Its strings are modelled as \<^typ>\<open>string\<close>: a character of the
  model is one code unit below 256 (ASCII and Latin-1), which covers every literal and
  every pattern of the source. The string methods the source calls are translated one by
  one below, each with the name it has in the source.
\<close>

definition lowerChar :: "char \<Rightarrow> char" where
  \<comment> \<open>one character of \<open>String.prototype.toLowerCase\<close>: A-Z and the Latin-1 capitals
      (U+00C0 .. U+00DE without the multiplication sign U+00D7) move up by 32\<close>
  "lowerChar c =
     (let n = (of_char c :: nat)
      in if (65 \<le> n \<and> n \<le> 90) \<or> (192 \<le> n \<and> n \<le> 222 \<and> n \<noteq> 215)
         then char_of (n + 32) else c)"

definition toLowerCase :: "string \<Rightarrow> string" where
  "toLowerCase s = map lowerChar s"

definition isSpace :: "char \<Rightarrow> bool" where
  \<comment> \<open>the class \<open>\s\<close> of a regular expression, which is also what \<open>trim\<close> removes:
      TAB, LF, VT, FF, CR, SPACE and NO-BREAK SPACE\<close>
  "isSpace c = ((of_char c :: nat) \<in> {9, 10, 11, 12, 13, 32, 160})"

definition isDigit :: "char \<Rightarrow> bool" where
  \<comment> \<open>the class \<open>\d\<close>\<close>
  "isDigit c = (48 \<le> (of_char c :: nat) \<and> (of_char c :: nat) \<le> 57)"

definition isSep :: "char \<Rightarrow> bool" where
  \<comment> \<open>the class \<open>[_\s]\<close>\<close>
  "isSep c = (c = CHR ''_'' \<or> isSpace c)"

fun includes_str :: "string \<Rightarrow> string \<Rightarrow> bool" where
  \<comment> \<open>\<open>s.includes(sub)\<close>: \<open>sub\<close> occurs in \<open>s\<close> at some position\<close>
  "includes_str [] sub = (sub = [])"
| "includes_str (c # cs) sub = (prefix sub (c # cs) \<or> includes_str cs sub)"

definition trim :: "string \<Rightarrow> string" where
  "trim s = rev (dropWhile isSpace (rev (dropWhile isSpace s)))"

fun split_delim :: "string \<Rightarrow> string list" where
  \<comment> \<open>\<open>s.split('||')\<close>: the segments between the occurrences of the delimiter, found
      from the left and not overlapping\<close>
  "split_delim (c # d # cs) =
     (if c = CHR ''|'' \<and> d = CHR ''|'' then [] # split_delim cs
      else (let r = split_delim (d # cs) in (c # hd r) # tl r))"
| "split_delim [c] = [[c]]"
| "split_delim [] = [[]]"

section \<open>Scene analysis\<close>

text \<open>
  The interface \<open>Character\<close> of the source has the fields \<open>name\<close> and \<open>outfit\<close>; the
  first is written \<open>cname\<close> here, because \<open>QCImage\<close> has a field \<open>name\<close> as well.
\<close>

record Character =
  cname :: string
  outfit :: string

definition detectSettingFromPrompt :: "string \<Rightarrow> string" where
  "detectSettingFromPrompt prompt =
     (if prompt = [] then ''generic''
      else let p = toLowerCase prompt
           in if includes_str p ''vip'' then ''hospital_vip''
              else if includes_str p ''hospital'' \<or> includes_str p ''rumah sakit'' then ''hospital_regular''
              else if includes_str p ''living'' \<or> includes_str p ''ruang tamu'' then ''apartment_living_room''
              else if includes_str p ''bedroom'' \<or> includes_str p ''kamar tidur'' then ''apartment_bedroom''
              else ''generic'')"

definition detectOutfit :: "string \<Rightarrow> string" where
  \<comment> \<open>the local function of \<open>detectCharactersFromPrompt\<close>; \<open>p\<close> is the lower-cased prompt
      it closes over\<close>
  "detectOutfit p =
     (if includes_str p ''baju pasien'' \<or> includes_str p ''patient'' then ''patient''
      else if includes_str p ''formal'' then ''formal''
      else if includes_str p ''casual'' then ''casual''
      else if includes_str p ''santai'' then ''santai''
      else ''default'')"

definition detectCharactersFromPrompt :: "string \<Rightarrow> Character list" where
  \<comment> \<open>the four \<open>push\<close> calls, in the order of the source\<close>
  "detectCharactersFromPrompt prompt =
     (if prompt = [] then []
      else let p = toLowerCase prompt
           in (if includes_str p ''mc'' then [\<lparr>cname = ''MC'', outfit = detectOutfit p\<rparr>] else [])
            @ (if includes_str p ''raka'' then [\<lparr>cname = ''Raka'', outfit = detectOutfit p\<rparr>] else [])
            @ (if includes_str p ''alina'' then [\<lparr>cname = ''Alina'', outfit = detectOutfit p\<rparr>] else [])
            @ (if includes_str p ''aruna'' then [\<lparr>cname = ''Aruna'', outfit = ''default''\<rparr>] else []))"

section \<open>Matching an image to its prompt\<close>

text \<open>
  The three regular expressions of \<open>matchPromptToImage\<close>. All carry the flag \<open>i\<close>; their
  letters are ASCII, so a character matches a letter of the pattern exactly when its
  lower-case form is that letter.
\<close>

definition startsWithCI :: "string \<Rightarrow> string \<Rightarrow> bool" where
  \<comment> \<open>the lower-case pattern \<open>pat\<close> matches at the start of \<open>s\<close>, ignoring case\<close>
  "startsWithCI pat s = prefix pat (toLowerCase s)"

fun replace_compressed :: "string \<Rightarrow> string" where
  \<comment> \<open>\<open>.replace(/_compressed/gi, '')\<close>: every occurrence, found from the left, is removed;
      the scan goes on behind the occurrence and never looks at the result again\<close>
  "replace_compressed [] = []"
| "replace_compressed (c # cs) =
     (if startsWithCI ''_compressed'' (c # cs) then replace_compressed (drop 10 cs)
      else c # replace_compressed cs)"

fun replace_ext :: "string \<Rightarrow> string" where
  \<comment> \<open>\<open>.replace(/\.(png|jpg|jpeg|webp)$/i, '')\<close>: the first position from which the rest of
      the string is one of the four extensions; \<open>$\<close> is the end of the string (no flag \<open>m\<close>)\<close>
  "replace_ext [] = []"
| "replace_ext (c # cs) =
     (if toLowerCase (c # cs) \<in> set [''.png'', ''.jpg'', ''.jpeg'', ''.webp''] then []
      else c # replace_ext cs)"

definition cleanImageName :: "string \<Rightarrow> string" where
  "cleanImageName imageName = toLowerCase (replace_ext (replace_compressed imageName))"

definition matchChapAt :: "string \<Rightarrow> (string \<times> string) option" where
  \<comment> \<open>\<open>/chap[_\s]*(\d+)_(\d+)/i\<close> tried at the start of \<open>s\<close>; the result is the two groups.
      Each of the three repetitions is followed by something outside its own class
      (or by nothing), so giving back characters never helps: each takes all it can.\<close>
  "matchChapAt s =
     (if startsWithCI ''chap'' s
      then let r1 = dropWhile isSep (drop 4 s);
               a = takeWhile isDigit r1;
               r2 = dropWhile isDigit r1
           in if a = [] then None
              else (case r2 of
                      [] \<Rightarrow> None
                    | x # r3 \<Rightarrow>
                        if x = CHR ''_''
                        then let b = takeWhile isDigit r3
                             in if b = [] then None else Some (a, b)
                        else None)
      else None)"

fun matchChap :: "string \<Rightarrow> (string \<times> string) option" where
  \<comment> \<open>\<open>s.match(/chap[_\s]*(\d+)_(\d+)/i)\<close>: the match at the leftmost position that has one,
      \<open>None\<close> for \<open>null\<close>\<close>
  "matchChap [] = None"
| "matchChap (c # cs) =
     (case matchChapAt (c # cs) of Some m \<Rightarrow> Some m | None \<Rightarrow> matchChap cs)"

definition chapterKey :: "string \<times> string \<Rightarrow> string" where
  \<comment> \<open>the template literal \<open>`${m[1]}_${m[2]}`\<close>\<close>
  "chapterKey m = fst m @ ''_'' @ snd m"

record PromptEntry =
  outputAi :: string

fun scanPrompts :: "string \<Rightarrow> PromptEntry list \<Rightarrow> string option" where
  \<comment> \<open>the \<open>for ... of\<close> loop of \<open>matchPromptToImage\<close>; \<open>parts ! 1\<close> is read only where the
      delimiter occurs, so where \<open>parts\<close> has two elements at least\<close>
  "scanPrompts imgChapter [] = None"
| "scanPrompts imgChapter (promptEntry # rest) =
     (let outputAi = outputAi promptEntry
      in if includes_str outputAi ''||''
         then let parts = split_delim outputAi;
                  promptText = trim (parts ! 0);
                  filenameFromJSON = trim (parts ! 1)
              in (case matchChap filenameFromJSON of
                    Some jsonMatch \<Rightarrow>
                      if imgChapter = chapterKey jsonMatch then Some promptText
                      else scanPrompts imgChapter rest
                  | None \<Rightarrow> scanPrompts imgChapter rest)
         else scanPrompts imgChapter rest)"

definition imgMatch :: "string \<Rightarrow> (string \<times> string) option" where
  \<comment> \<open>the constant \<open>imgMatch\<close> of \<open>matchPromptToImage\<close>: what the pattern finds in the
      cleaned image name\<close>
  "imgMatch imageName = matchChap (cleanImageName imageName)"

definition matchPromptToImage :: "string \<Rightarrow> PromptEntry list \<Rightarrow> string option" where
  "matchPromptToImage imageName promptsArray =
     (if promptsArray = [] then None
      else (case imgMatch imageName of
              Some m \<Rightarrow> scanPrompts (chapterKey m) promptsArray
            | None \<Rightarrow> None))"

section \<open>The review ledger\<close>

datatype Status = Pending | Approved | Rejected

datatype File = File (file_name: string)

text \<open>
  The interface \<open>QCImage\<close>. Its field \<open>id\<close> is written \<open>img_id\<close>, because \<open>id\<close> is the identity
  function of HOL, and its field \<open>file\<close> is written \<open>img_file\<close>, because \<open>file\<close> is a keyword.
\<close>

record QCImage =
  img_id :: int
  img_file :: "File option"
  url :: string
  oldUrl :: "string option"
  name :: string
  prompt :: string
  originalPrompt :: string
  status :: Status
  setting :: "string option"

datatype View = Dashboard | QC | Extraction | Retry

datatype Alert = LoadedPrompts nat | InvalidJSON | RegenerationFailed

text \<open>
  The state of the component \<open>App\<close>: one field for each \<open>useState\<close> that the handlers below
  read or write. A handler is a function from the state to the next state, together with
  the alert it shows, if any. A handler that the page offers only while there is a current
  image (\<open>images[qcIndex]\<close>) returns \<open>None\<close> where there is none.
\<close>

record AppState =
  currentView :: View
  backendUrl :: string
  images :: "QCImage list"
  promptData :: "PromptEntry list"
  qcIndex :: nat
  compareMode :: bool
  outfitOverride :: "(string \<times> string) list"
  isRegenerating :: bool

definition placeholderPrompt :: string where
  "placeholderPrompt = ''Prompt will appear here once JSON is loaded...''"

definition newImage :: "PromptEntry list \<Rightarrow> nat \<times> File \<times> int \<times> string \<Rightarrow> QCImage" where
  \<comment> \<open>the callback of \<open>files.map\<close> in \<open>handleImageUpload\<close>; \<open>prompts\<close> is the \<open>promptData\<close> it
      closes over. With the file come the two
      answers of the environment: \<open>now\<close> is what \<open>Date.now()\<close> returns in this call and
      \<open>objectUrl\<close> what \<open>URL.createObjectURL(file)\<close> returns. The empty string is falsy,
      so \<open>||\<close> replaces it as it replaces \<open>null\<close>.\<close>
  "newImage prompts x =
     (case x of (idx, file, now, objectUrl) \<Rightarrow>
        let prompt = (case matchPromptToImage (file_name file) prompts of
                        None \<Rightarrow> placeholderPrompt
                      | Some p \<Rightarrow> if p = [] then placeholderPrompt else p)
        in \<lparr>img_id = now + int idx, img_file = Some file, url = objectUrl, oldUrl = None,
            name = file_name file, prompt = prompt, originalPrompt = prompt,
            status = Pending, setting = None\<rparr>)"

definition handleImageUpload :: "(File \<times> int \<times> string) list option \<Rightarrow> AppState \<Rightarrow> AppState" where
  \<comment> \<open>\<open>None\<close> is the event without a file list, which the handler ignores\<close>
  "handleImageUpload files s =
     (case files of
        None \<Rightarrow> s
      | Some fs \<Rightarrow>
          s\<lparr>images := images s @ map (newImage (promptData s)) (enumerate 0 fs),
            currentView := QC\<rparr>)"

definition rematch :: "PromptEntry list \<Rightarrow> QCImage \<Rightarrow> QCImage" where
  \<comment> \<open>the callback of \<open>prev.map\<close> in \<open>handleJSONUpload\<close>; the empty string is falsy\<close>
  "rematch data img =
     (case matchPromptToImage (name img) data of
        None \<Rightarrow> img
      | Some newPrompt \<Rightarrow>
          if newPrompt = [] then img
          else img\<lparr>prompt := newPrompt, originalPrompt := newPrompt\<rparr>)"

definition handleJSONUpload ::
  "(string \<Rightarrow> PromptEntry list option) \<Rightarrow> string option \<Rightarrow> AppState \<Rightarrow> AppState \<times> Alert option" where
  \<comment> \<open>\<open>JSON_parse\<close> stands for \<open>JSON.parse\<close>, with \<open>None\<close> where it throws; \<open>content\<close> is the
      text of the chosen file, \<open>None\<close> where no file was chosen\<close>
  "handleJSONUpload JSON_parse content s =
     (case content of
        None \<Rightarrow> (s, None)
      | Some text \<Rightarrow>
          (case JSON_parse text of
             Some data \<Rightarrow>
               (s\<lparr>promptData := data, images := map (rematch data) (images s)\<rparr>,
                Some (LoadedPrompts (length data)))
           | None \<Rightarrow> (s, Some InvalidJSON)))"

definition charsWithOverride :: "(string \<times> string) list \<Rightarrow> Character list \<Rightarrow> Character list" where
  \<comment> \<open>\<open>outfitOverride[c.name] || c.outfit\<close>\<close>
  "charsWithOverride override detectedChars =
     map (\<lambda>c. \<lparr>cname = cname c,
               outfit = (case map_of override (cname c) of
                           None \<Rightarrow> outfit c
                         | Some v \<Rightarrow> if v = [] then outfit c else v)\<rparr>) detectedChars"

definition handleRegenerate ::
  "(QCImage \<Rightarrow> Character list \<Rightarrow> string option) \<Rightarrow> AppState \<Rightarrow> AppState \<times> Alert option" where
  \<comment> \<open>\<open>generate\<close> stands for the awaited call inside \<open>try\<close>: it returns the locator of the new
      image, or \<open>None\<close> where the call throws. The handler runs from the click to the
      end of \<open>finally\<close> in one step.\<close>
  "handleRegenerate generate s =
     (if \<not> qcIndex s < length (images s) \<or> backendUrl s = [] then (s, None)
      else let current = images s ! qcIndex s;
               detectedChars = detectCharactersFromPrompt (prompt current)
           in (case generate current (charsWithOverride (outfitOverride s) detectedChars) of
                 Some newUrl \<Rightarrow>
                   (s\<lparr>images := (images s)[qcIndex s :=
                                 current\<lparr>oldUrl := Some (url current), url := newUrl,
                                         status := Pending\<rparr>],
                      compareMode := True, isRegenerating := False\<rparr>, None)
               | None \<Rightarrow> (s\<lparr>isRegenerating := False\<rparr>, Some RegenerationFailed)))"

definition demoGenerate :: "QCImage \<Rightarrow> Character list \<Rightarrow> string option" where
  \<comment> \<open>what the source awaits today: a timer, after which the new locator is the old one\<close>
  "demoGenerate current chars = Some (url current)"

definition approve :: "AppState \<Rightarrow> AppState option" where
  \<comment> \<open>the \<open>onClick\<close> of the Approve button\<close>
  "approve s =
     (if qcIndex s < length (images s)
      then Some (s\<lparr>images := (images s)[qcIndex s := (images s ! qcIndex s)\<lparr>status := Approved\<rparr>],
                   qcIndex := (if int (qcIndex s) < int (length (images s)) - 1
                               then qcIndex s + 1 else qcIndex s)\<rparr>)
      else None)"

definition reject :: "AppState \<Rightarrow> AppState option" where
  \<comment> \<open>the \<open>onClick\<close> of the Reject button\<close>
  "reject s =
     (if qcIndex s < length (images s)
      then Some (s\<lparr>images := (images s)[qcIndex s := (images s ! qcIndex s)\<lparr>status := Rejected\<rparr>],
                   qcIndex := (if int (qcIndex s) < int (length (images s)) - 1
                               then qcIndex s + 1 else qcIndex s)\<rparr>)
      else None)"

definition selectItem :: "nat \<Rightarrow> AppState \<Rightarrow> AppState" where
  \<comment> \<open>the \<open>onClick\<close> of an entry of the queue\<close>
  "selectItem idx s = s\<lparr>qcIndex := idx, compareMode := False\<rparr>"

definition editPrompt :: "string \<Rightarrow> AppState \<Rightarrow> AppState option" where
  \<comment> \<open>the \<open>onChange\<close> of the prompt text area\<close>
  "editPrompt newText s =
     (if qcIndex s < length (images s)
      then Some (s\<lparr>images := (images s)[qcIndex s := (images s ! qcIndex s)\<lparr>prompt := newText\<rparr>]\<rparr>)
      else None)"

definition resetPrompt :: "AppState \<Rightarrow> AppState option" where
  \<comment> \<open>the \<open>onClick\<close> of the Reset Prompt button\<close>
  "resetPrompt s =
     (if qcIndex s < length (images s)
      then let current = images s ! qcIndex s
           in Some (s\<lparr>images := (images s)[qcIndex s := current\<lparr>prompt := originalPrompt current\<rparr>]\<rparr>)
      else None)"

fun editPrompts :: "string list \<Rightarrow> AppState \<Rightarrow> AppState option" where
  \<comment> \<open>a sequence of edits, one after the other\<close>
  "editPrompts [] s = Some s"
| "editPrompts (t # ts) s = (case editPrompt t s of None \<Rightarrow> None | Some s' \<Rightarrow> editPrompts ts s')"

section \<open>The derived fields of a prompt record\<close>

text \<open>
  A prompt record stores one string, "prompt text || chapter tag". The two notions below
  name what \<open>matchPromptToImage\<close> derives from it inside its loop: the chapter of the record
  (nothing, where the delimiter or the pattern is missing) and its prompt text.
\<close>

definition recordChapter :: "PromptEntry \<Rightarrow> (string \<times> string) option" where
  "recordChapter e =
     (if includes_str (outputAi e) ''||''
      then matchChap (trim (split_delim (outputAi e) ! 1)) else None)"

definition promptTextOf :: "PromptEntry \<Rightarrow> string" where
  "promptTextOf e = trim (split_delim (outputAi e) ! 0)"

text \<open>
  The spec calls the chapter a pair of integers. \<open>chapterIdentifier\<close> reads the two digit runs
  of a match as decimal numbers; \<open>noLeadingZero\<close> holds of a digit run that is written the
  way a number is printed.
\<close>

definition digitValue :: "char \<Rightarrow> nat" where
  "digitValue c = of_char c - 48"

definition decimal :: "string \<Rightarrow> nat" where
  "decimal ds = foldl (\<lambda>n c. 10 * n + digitValue c) 0 ds"

definition chapterIdentifier :: "string \<times> string \<Rightarrow> nat \<times> nat" where
  "chapterIdentifier m = (decimal (fst m), decimal (snd m))"

definition noLeadingZero :: "string \<Rightarrow> bool" where
  "noLeadingZero ds = (ds = ''0'' \<or> (ds \<noteq> [] \<and> hd ds \<noteq> CHR ''0''))"

section \<open>States for the examples\<close>

text \<open>
  \<open>initialState\<close> holds the initial values of the \<open>useState\<close> calls (the backend address is
  the default of the source). The other constants are the concrete inputs of the examples
  that follow the theorems.
\<close>

definition initialState :: AppState where
  "initialState =
     \<lparr>currentView = Dashboard, backendUrl = ''http://localhost:5000'', images = [],
      promptData = [], qcIndex = 0, compareMode = False, outfitOverride = [],
      isRegenerating = False\<rparr>"

definition exampleImage :: "int \<Rightarrow> string \<Rightarrow> string \<Rightarrow> Status \<Rightarrow> QCImage" where
  "exampleImage i n p st =
     \<lparr>img_id = i, img_file = Some (File n), url = ''blob:'' @ n, oldUrl = None, name = n,
      prompt = p, originalPrompt = p, status = st, setting = None\<rparr>"

definition exampleLedger :: AppState where
  \<comment> \<open>two images, the first matched and approved, the second without a match and with a
      prompt the reviewer has typed; the first is the current one\<close>
  "exampleLedger =
     initialState
       \<lparr>currentView := QC,
        images := [exampleImage 1000 ''scene_chap_1_2.png'' ''A hides'' Approved,
                   (exampleImage 1001 ''unrelated.png'' placeholderPrompt Pending)
                     \<lparr>prompt := ''Empty corridor, night''\<rparr>]\<rparr>"

definition pendingLedger :: AppState where
  \<comment> \<open>\<open>exampleLedger\<close> before its first image was approved\<close>
  "pendingLedger =
     exampleLedger
       \<lparr>images := [exampleImage 1000 ''scene_chap_1_2.png'' ''A hides'' Pending,
                   (exampleImage 1001 ''unrelated.png'' placeholderPrompt Pending)
                     \<lparr>prompt := ''Empty corridor, night''\<rparr>]\<rparr>"

definition exampleJson :: string where
  "exampleJson = ''[{\"outputAi\": \"B arrives || Chap_1_3\"}]''"

definition exampleParse :: "string \<Rightarrow> PromptEntry list option" where
  \<comment> \<open>\<open>JSON.parse\<close> on the three texts of the examples\<close>
  "exampleParse t =
     (if t = ''[]'' then Some []
      else if t = exampleJson then Some [\<lparr>outputAi = ''B arrives || Chap_1_3''\<rparr>]
      else None)"

definition exampleGenerate :: "QCImage \<Rightarrow> Character list \<Rightarrow> string option" where
  \<comment> \<open>a generation service that answers the first request and fails on the second\<close>
  "exampleGenerate current chars =
     (if url current = ''blob:scene_chap_1_2.png'' then Some ''blob:regenerated'' else None)"

text \<open>The current image and the character list that \<open>handleRegenerate\<close> builds for it.\<close>

definition currentItem :: "AppState \<Rightarrow> QCImage" where
  "currentItem s = images s ! qcIndex s"

definition regenerationRequest :: "AppState \<Rightarrow> Character list" where
  "regenerationRequest s =
     charsWithOverride (outfitOverride s) (detectCharactersFromPrompt (prompt (currentItem s)))"

section \<open>Facts about strings and characters\<close>

text \<open>\<open>includes_str\<close> is the substring test: the searched text occurs somewhere in the string.\<close>

lemma includes_str_iff: "includes_str s sub \<longleftrightarrow> (\<exists>pre post. s = pre @ sub @ post)"
proof (induction s)
  case Nil
  then show ?case by auto
next
  case (Cons c cs)
  show ?case
  proof
    assume "includes_str (c # cs) sub"
    then consider "prefix sub (c # cs)" | "includes_str cs sub" by auto
    then show "\<exists>pre post. c # cs = pre @ sub @ post"
    proof cases
      case 1
      then obtain post where "c # cs = sub @ post" by (auto simp: prefix_def)
      then have "c # cs = [] @ sub @ post" by simp
      then show ?thesis by blast
    next
      case 2
      with Cons.IH obtain pre post where "cs = pre @ sub @ post" by blast
      then have "c # cs = (c # pre) @ sub @ post" by simp
      then show ?thesis by blast
    qed
  next
    assume "\<exists>pre post. c # cs = pre @ sub @ post"
    then obtain pre post where eq: "c # cs = pre @ sub @ post" by blast
    show "includes_str (c # cs) sub"
    proof (cases pre)
      case Nil
      with eq have "prefix sub (c # cs)" by (simp add: prefix_def)
      then show ?thesis by simp
    next
      case (Cons p ps)
      with eq have "cs = ps @ sub @ post" by simp
      with Cons.IH have "includes_str cs sub" by blast
      then show ?thesis by simp
    qed
  qed
qed

lemma toLowerCase_simps [simp]:
  "toLowerCase [] = []"
  "toLowerCase (c # cs) = lowerChar c # toLowerCase cs"
  "toLowerCase (xs @ ys) = toLowerCase xs @ toLowerCase ys"
  "length (toLowerCase xs) = length xs"
  by (simp_all add: toLowerCase_def)

lemma lowerChar_eq_iff:
  "lowerChar c = d \<longleftrightarrow>
     (if (65 \<le> (of_char c :: nat) \<and> (of_char c :: nat) \<le> 90)
         \<or> (192 \<le> (of_char c :: nat) \<and> (of_char c :: nat) \<le> 222 \<and> (of_char c :: nat) \<noteq> 215)
      then (of_char c :: nat) + 32 = of_char d else c = d)"
proof -
  have "(of_char c :: nat) < 256" by simp
  then show ?thesis
    by (auto simp: lowerChar_def Let_def char_of_eq_iff take_bit_nat_eq_self)
qed

lemma lower_c_not_class:
  assumes "lowerChar k = CHR ''c''"
  shows "\<not> isDigit k" and "\<not> isSep k" and "k \<noteq> CHR ''_''"
    and "lowerChar k \<noteq> CHR ''h''" and "lowerChar k \<noteq> CHR ''a''" and "lowerChar k \<noteq> CHR ''p''"
  using assms
  by (auto simp: lowerChar_eq_iff isDigit_def isSep_def isSpace_def split: if_splits)

lemma digit_not_underscore: "isDigit c \<Longrightarrow> c \<noteq> CHR ''_''"
  by (auto simp: isDigit_def)

lemma digit_not_sep: "isDigit c \<Longrightarrow> \<not> isSep c"
  by (auto simp: isDigit_def isSep_def isSpace_def)

lemma startsWithCI_chap:
  "startsWithCI ''chap'' s \<longleftrightarrow> 4 \<le> length s \<and> toLowerCase (take 4 s) = ''chap''"
proof
  assume "startsWithCI ''chap'' s"
  then obtain r where r: "toLowerCase s = ''chap'' @ r"
    by (auto simp: startsWithCI_def prefix_def)
  then have "length (toLowerCase s) = 4 + length r" by simp
  then have l: "4 \<le> length s" by simp
  have "toLowerCase (take 4 s) = take 4 (toLowerCase s)"
    by (simp add: toLowerCase_def take_map)
  with r l show "4 \<le> length s \<and> toLowerCase (take 4 s) = ''chap''" by simp
next
  assume a: "4 \<le> length s \<and> toLowerCase (take 4 s) = ''chap''"
  have "toLowerCase s = toLowerCase (take 4 s) @ toLowerCase (drop 4 s)"
    by (simp flip: toLowerCase_simps(3))
  with a show "startsWithCI ''chap'' s" by (simp add: startsWithCI_def prefix_def)
qed

subsection \<open>The chapter pattern\<close>

lemma matchChapAt_digits:
  assumes "matchChapAt s = Some (a, b)"
  shows "a \<noteq> [] \<and> b \<noteq> [] \<and> (\<forall>c \<in> set a. isDigit c) \<and> (\<forall>c \<in> set b. isDigit c)"
  using assms
  by (auto simp: matchChapAt_def Let_def split: if_splits list.splits dest: set_takeWhileD)

lemma matchChap_digits:
  "matchChap s = Some (a, b) \<Longrightarrow>
   a \<noteq> [] \<and> b \<noteq> [] \<and> (\<forall>c \<in> set a. isDigit c) \<and> (\<forall>c \<in> set b. isDigit c)"
proof (induction s)
  case Nil
  then show ?case by simp
next
  case (Cons c cs)
  show ?case
  proof (cases "matchChapAt (c # cs)")
    case None
    with Cons show ?thesis by simp
  next
    case (Some m)
    with Cons.prems have "matchChapAt (c # cs) = Some (a, b)" by simp
    then show ?thesis by (rule matchChapAt_digits)
  qed
qed

lemma chapterKey_inject:
  assumes "\<forall>c \<in> set a. isDigit c" and "\<forall>c \<in> set a'. isDigit c"
  shows "chapterKey (a, b) = chapterKey (a', b') \<longleftrightarrow> (a, b) = (a', b')"
proof
  assume "chapterKey (a, b) = chapterKey (a', b')"
  then have e: "a @ CHR ''_'' # b = a' @ CHR ''_'' # b'" by (simp add: chapterKey_def)
  have "takeWhile isDigit (a @ CHR ''_'' # b) = a"
    using assms(1) by (simp add: takeWhile_tail isDigit_def)
  moreover have "takeWhile isDigit (a' @ CHR ''_'' # b') = a'"
    using assms(2) by (simp add: takeWhile_tail isDigit_def)
  ultimately have "a = a'" using e by simp
  with e show "(a, b) = (a', b')" by simp
qed simp

section \<open>Properties of the matching\<close>

lemma dropWhile_append_keep:
  assumes "ys \<noteq> []" and "\<not> P (hd ys)"
  shows "dropWhile P (xs @ ys) = dropWhile P xs @ ys"
  using assms by (induction xs) (auto simp: dropWhile_eq_self_iff)

lemma takeWhile_append_keep:
  assumes "ys \<noteq> []" and "\<not> P (hd ys)"
  shows "takeWhile P (xs @ ys) = takeWhile P xs"
  using assms by (induction xs) (auto simp: takeWhile_eq_Nil_iff)

lemma matchChapAt_intro:
  assumes kw: "toLowerCase kw = ''chap''"
    and seps: "\<forall>c \<in> set seps. isSep c"
    and a: "a \<noteq> []" "\<forall>c \<in> set a. isDigit c"
    and b: "b \<noteq> []" "\<forall>c \<in> set b. isDigit c"
    and rest: "rest = [] \<or> \<not> isDigit (hd rest)"
  shows "matchChapAt (kw @ seps @ a @ ''_'' @ b @ rest) = Some (a, b)"
proof -
  from kw have "length (toLowerCase kw) = 4" by simp
  then have l: "length kw = 4" by simp
  let ?s = "kw @ seps @ a @ ''_'' @ b @ rest"
  from l have t: "take 4 ?s = kw" and d: "drop 4 ?s = seps @ a @ ''_'' @ b @ rest" by simp_all
  from l kw have s: "startsWithCI ''chap'' ?s" by (simp add: startsWithCI_chap)
  from a have ha: "\<not> isSep (hd a)" by (simp add: digit_not_sep)
  from a seps ha have r1: "dropWhile isSep (seps @ a @ ''_'' @ b @ rest) = a @ ''_'' @ b @ rest"
    by (cases a) (simp_all add: dropWhile_append2)
  have ta: "takeWhile isDigit (a @ ''_'' @ b @ rest) = a"
    using a(2) by (simp add: takeWhile_tail isDigit_def)
  have da: "dropWhile isDigit (a @ ''_'' @ b @ rest) = ''_'' @ b @ rest"
    using a(2) by (simp add: dropWhile_append2 isDigit_def)
  have tb: "takeWhile isDigit (b @ rest) = b"
  proof (cases rest)
    case Nil
    with b(2) show ?thesis by simp
  next
    case (Cons x xs)
    with rest have "\<not> isDigit x" by simp
    with Cons b(2) show ?thesis by (simp add: takeWhile_tail)
  qed
  from s a(1) b(1) r1 ta da tb show ?thesis
    by (simp add: matchChapAt_def Let_def l)
qed

lemma matchChapAt_elim:
  assumes "matchChapAt s = Some (a, b)"
  shows "\<exists>kw seps rest. s = kw @ seps @ a @ ''_'' @ b @ rest \<and> toLowerCase kw = ''chap''
           \<and> (\<forall>c \<in> set seps. isSep c) \<and> (rest = [] \<or> \<not> isDigit (hd rest))"
proof -
  let ?d = "drop 4 s"
  let ?r1 = "dropWhile isSep ?d"
  from assms have sw: "startsWithCI ''chap'' s"
    by (simp add: matchChapAt_def split: if_splits)
  with assms obtain r3 where a: "a = takeWhile isDigit ?r1"
    and r2: "dropWhile isDigit ?r1 = CHR ''_'' # r3" and b: "b = takeWhile isDigit r3"
    by (auto simp: matchChapAt_def Let_def split: if_splits list.splits)
  let ?rest = "dropWhile isDigit r3"
  have "s = take 4 s @ ?d" by simp
  also have "?d = takeWhile isSep ?d @ ?r1" by simp
  also have "?r1 = takeWhile isDigit ?r1 @ dropWhile isDigit ?r1" by simp
  also have "dropWhile isDigit ?r1 = ''_'' @ takeWhile isDigit r3 @ ?rest" using r2 by simp
  finally have "s = take 4 s @ takeWhile isSep ?d @ a @ ''_'' @ b @ ?rest"
    using a b by simp
  moreover from sw have "toLowerCase (take 4 s) = ''chap''" by (simp add: startsWithCI_chap)
  moreover have "\<forall>c \<in> set (takeWhile isSep ?d). isSep c" by (auto dest: set_takeWhileD)
  moreover have "?rest = [] \<or> \<not> isDigit (hd ?rest)" using hd_dropWhile by blast
  ultimately show ?thesis by blast
qed

lemma matchChapAt_append:
  assumes p: "p \<noteq> []" and k: "lowerChar k = CHR ''c''"
  shows "matchChapAt (p @ k # t) = matchChapAt p"
proof (cases "4 \<le> length p")
  case True
  let ?y = "k # t"
  note nk = lower_c_not_class [OF k]
  have y: "?y \<noteq> []" "\<not> isSep (hd ?y)" "\<not> isDigit (hd ?y)" using nk by simp_all
  from True have sw: "startsWithCI ''chap'' (p @ ?y) = startsWithCI ''chap'' p"
    by (simp add: startsWithCI_chap)
  from True have d: "drop 4 (p @ ?y) = drop 4 p @ ?y" by simp
  have r1: "dropWhile isSep (drop 4 p @ ?y) = dropWhile isSep (drop 4 p) @ ?y"
    using y by (simp add: dropWhile_append_keep)
  have ta: "takeWhile isDigit (dropWhile isSep (drop 4 p) @ ?y) = takeWhile isDigit (dropWhile isSep (drop 4 p))"
    using y by (simp add: takeWhile_append_keep)
  have r2: "dropWhile isDigit (dropWhile isSep (drop 4 p) @ ?y) = dropWhile isDigit (dropWhile isSep (drop 4 p)) @ ?y"
    using y by (simp add: dropWhile_append_keep)
  have tb: "takeWhile isDigit (r3 @ ?y) = takeWhile isDigit r3" for r3
    using y by (simp add: takeWhile_append_keep)
  show ?thesis
  proof (cases "dropWhile isDigit (dropWhile isSep (drop 4 p))")
    case Nil
    from nk(3) show ?thesis
      unfolding matchChapAt_def Let_def sw d r1 ta r2 Nil by simp
  next
    case (Cons x r3)
    from tb [of r3] show ?thesis
      unfolding matchChapAt_def Let_def sw d r1 ta r2 Cons by simp
  qed
next
  case False
  then have np: "\<not> startsWithCI ''chap'' p" by (simp add: startsWithCI_chap)
  have "\<not> startsWithCI ''chap'' (p @ k # t)"
  proof
    assume "startsWithCI ''chap'' (p @ k # t)"
    then have pre: "prefix ''chap'' (toLowerCase p @ CHR ''c'' # toLowerCase t)"
      using k by (simp add: startsWithCI_def)
    from False p consider x where "p = [x]" | x y where "p = [x, y]" | x y z where "p = [x, y, z]"
      by (cases p rule: list.exhaust; cases "tl p"; cases "tl (tl p)"; cases "tl (tl (tl p))") auto
    then show False using pre by cases auto
  qed
  with np show ?thesis by (simp add: matchChapAt_def)
qed

lemma matchChap_append:
  assumes k: "lowerChar k = CHR ''c''"
  shows "matchChap (pre @ k # t)
         = (case matchChap pre of Some m \<Rightarrow> Some m | None \<Rightarrow> matchChap (k # t))"
proof (induction pre)
  case Nil
  then show ?case by simp
next
  case (Cons c cs)
  have "matchChapAt ((c # cs) @ k # t) = matchChapAt (c # cs)"
    using k by (intro matchChapAt_append) simp_all
  with Cons show ?case by (simp split: option.splits)
qed

lemma matchChap_found:
  assumes "matchChapAt x = Some m"
  shows "matchChap (pre @ x) \<noteq> None"
proof -
  from assms have "x \<noteq> []" by (auto simp: matchChapAt_def startsWithCI_chap split: if_splits)
  then obtain c cs where x: "x = c # cs" by (cases x) auto
  show ?thesis
    using assms unfolding x by (induction pre) (auto split: option.splits)
qed

lemma matchChap_elim:
  assumes "matchChap s = Some (a, b)"
  shows "\<exists>pre x. s = pre @ x \<and> matchChap pre = None \<and> matchChapAt x = Some (a, b)"
  using assms
proof (induction s)
  case Nil
  then show ?case by simp
next
  case (Cons c cs)
  show ?case
  proof (cases "matchChapAt (c # cs)")
    case (Some m)
    with Cons.prems have "matchChapAt (c # cs) = Some (a, b)" by simp
    then have "c # cs = [] @ (c # cs) \<and> matchChap [] = None \<and> matchChapAt (c # cs) = Some (a, b)"
      by simp
    then show ?thesis by blast
  next
    case None
    with Cons.prems have "matchChap cs = Some (a, b)" by simp
    with Cons.IH obtain pre x where e: "cs = pre @ x" "matchChap pre = None" "matchChapAt x = Some (a, b)"
      by blast
    from e(3) obtain k t where x: "x = k # t" and k: "lowerChar k = CHR ''c''"
      by (cases x) (auto simp: matchChapAt_def startsWithCI_def split: if_splits)
    have "matchChapAt ((c # pre) @ k # t) = matchChapAt (c # pre)"
      using k by (intro matchChapAt_append) simp_all
    with None e(1) x have "matchChapAt (c # pre) = None" by simp
    with e(2) have "matchChap (c # pre) = None" by simp
    with e have "c # cs = (c # pre) @ x \<and> matchChap (c # pre) = None \<and> matchChapAt x = Some (a, b)"
      by simp
    then show ?thesis by blast
  qed
qed

subsection \<open>Cleaning the image name\<close>

lemma toLowerCase_eq_length: "toLowerCase s = t \<Longrightarrow> length s = length t"
  by (auto simp: toLowerCase_def)

lemma no_straddle_compressed:
  assumes "x \<noteq> []" and "\<not> prefix ''_compressed'' x" and "y \<noteq> []" and "hd y = CHR ''_''"
  shows "\<not> prefix ''_compressed'' (x @ y)"
proof
  assume "prefix ''_compressed'' (x @ y)"
  then have "prefix ''_compressed'' x \<or> (\<exists>us. ''_compressed'' = x @ us \<and> prefix us y)"
    by (simp only: prefix_append)
  with assms(2) obtain us where us: "''_compressed'' = x @ us" and p: "prefix us y"
    by blast
  from assms(1) obtain z zs where x: "x = z # zs" by (cases x) auto
  with us have c: "''compressed'' = zs @ us" by simp
  from us assms(2) have n: "us \<noteq> []" by auto
  with p assms(3,4) have "hd us = CHR ''_''" by (cases us; cases y) auto
  with n have "CHR ''_'' \<in> set (zs @ us)" by (cases us) auto
  with c have "CHR ''_'' \<in> set ''compressed''" by simp
  then show False by simp
qed

lemma replace_compressed_id:
  "\<not> includes_str (toLowerCase s) ''_compressed'' \<Longrightarrow> replace_compressed s = s"
  by (induction s) (auto simp add: startsWithCI_def)

lemma replace_compressed_marker:
  assumes "\<not> includes_str (toLowerCase base) ''_compressed''"
    and "toLowerCase m = ''_compressed''"
  shows "replace_compressed (base @ m @ t) = base @ replace_compressed t"
  using assms(1)
proof (induction base)
  case Nil
  from assms(2) have "length (toLowerCase m) = 11" by simp
  then have "length m = 11" by simp
  then obtain c cs where m: "m = c # cs" and l: "length cs = 10" by (cases m) auto
  from assms(2) have "startsWithCI ''_compressed'' (m @ t)"
    by (simp add: startsWithCI_def)
  with m l show ?case by simp
next
  case (Cons c cs)
  from Cons.prems have np: "\<not> prefix ''_compressed'' (toLowerCase (c # cs))"
    and ni: "\<not> includes_str (toLowerCase cs) ''_compressed''"
    by simp_all
  have "\<not> prefix ''_compressed'' (toLowerCase (c # cs) @ (''_compressed'' @ toLowerCase t))"
    using np by (intro no_straddle_compressed) simp_all
  with assms(2) have "\<not> startsWithCI ''_compressed'' (c # cs @ m @ t)"
    by (simp add: startsWithCI_def)
  with Cons.IH [OF ni] show ?case by simp
qed

lemma includes_str_append:
  assumes "includes_str (x @ e) pat" and "pat \<noteq> []"
  shows "includes_str x pat \<or> (e \<noteq> [] \<and> hd e \<in> set pat) \<or> includes_str (tl e) pat"
  using assms(1)
proof (induction x)
  case Nil
  then show ?case using assms(2)
    by (cases e; cases pat) auto
next
  case (Cons c cs)
  from Cons.prems consider "prefix pat ((c # cs) @ e)" | "includes_str (cs @ e) pat" by auto
  then show ?case
  proof cases
    case 1
    then have "prefix pat (c # cs) \<or> (\<exists>us. pat = (c # cs) @ us \<and> prefix us e)"
      by (simp only: prefix_append)
    then consider "prefix pat (c # cs)" | us where "pat = (c # cs) @ us" "prefix us e" "us \<noteq> []"
      by (metis append_Nil2 prefix_order.order_refl)
    then show ?thesis
    proof cases
      case 1
      then show ?thesis by simp
    next
      case 2
      then have "e \<noteq> []" and "hd e = hd us" by (cases us; cases e; auto)+
      with 2 have "e \<noteq> [] \<and> hd e \<in> set pat" by (cases us) auto
      then show ?thesis by blast
    qed
  next
    case 2
    with Cons.IH show ?thesis by auto
  qed
qed

lemma ext_word:
  assumes "w \<in> set [''.png'', ''.jpg'', ''.jpeg'', ''.webp'']"
  shows "w \<noteq> [] \<and> hd w = CHR ''.'' \<and> \<not> includes_str (tl w) ''_compressed''
       \<and> \<not> includes_str w ''_compressed'' \<and> (length w = 4 \<or> length w = 5)"
  using assms by auto

lemma ext_cases:
  assumes "toLowerCase ext \<in> set [''.png'', ''.jpg'', ''.jpeg'', ''.webp'']"
  shows "ext \<noteq> []" and "lowerChar (hd ext) = CHR ''.''"
    and "\<not> includes_str (toLowerCase (tl ext)) ''_compressed''"
    and "\<not> includes_str (toLowerCase ext) ''_compressed''"
    and "length ext = 4 \<or> length ext = 5"
proof -
  note w = ext_word [OF assms]
  from w show n: "ext \<noteq> []" by auto
  from n have h: "hd (toLowerCase ext) = lowerChar (hd ext)"
    and t: "tl (toLowerCase ext) = toLowerCase (tl ext)"
    by (simp_all add: toLowerCase_def hd_map map_tl)
  from w h show "lowerChar (hd ext) = CHR ''.''" by simp
  from w t show "\<not> includes_str (toLowerCase (tl ext)) ''_compressed''" by simp
  from w show "\<not> includes_str (toLowerCase ext) ''_compressed''" by simp
  from w show "length ext = 4 \<or> length ext = 5" by simp
qed

lemma replace_compressed_ext:
  assumes "\<not> includes_str (toLowerCase base) ''_compressed''"
    and "toLowerCase ext \<in> set [''.png'', ''.jpg'', ''.jpeg'', ''.webp'']"
  shows "replace_compressed (base @ ext) = base @ ext"
proof -
  note e = ext_cases [OF assms(2)]
  have "\<not> includes_str (toLowerCase base @ toLowerCase ext) ''_compressed''"
  proof
    assume "includes_str (toLowerCase base @ toLowerCase ext) ''_compressed''"
    from includes_str_append [OF this] assms(1)
    have "hd (toLowerCase ext) \<in> set ''_compressed'' \<or> includes_str (tl (toLowerCase ext)) ''_compressed''"
      by auto
    moreover from e(1) have "hd (toLowerCase ext) = lowerChar (hd ext)"
      and "tl (toLowerCase ext) = toLowerCase (tl ext)"
      by (cases ext; simp)+
    ultimately show False using e(2,3) by auto
  qed
  then show ?thesis by (simp add: replace_compressed_id)
qed

lemma replace_ext_strips:
  assumes "toLowerCase ext \<in> set [''.png'', ''.jpg'', ''.jpeg'', ''.webp'']"
  shows "replace_ext (base @ ext) = base"
proof (induction base)
  case Nil
  from assms ext_cases(1) [OF assms] show ?case by (cases ext) auto
next
  case (Cons c cs)
  have "toLowerCase (c # cs @ ext) \<notin> set [''.png'', ''.jpg'', ''.jpeg'', ''.webp'']"
  proof
    assume a: "toLowerCase (c # cs @ ext) \<in> set [''.png'', ''.jpg'', ''.jpeg'', ''.webp'']"
    have "length w \<le> 5" if "w \<in> set [''.png'', ''.jpg'', ''.jpeg'', ''.webp'']" for w :: string
      using that by auto
    from this [OF a] have "length cs + length ext \<le> 4" by simp
    with ext_cases(5) [OF assms] have cs: "cs = []" and l: "length ext = 4" by auto
    have "toLowerCase ext \<noteq> ''.jpeg''"
    proof
      assume "toLowerCase ext = ''.jpeg''"
      from toLowerCase_eq_length [OF this] l show False by simp
    qed
    moreover have "toLowerCase ext \<noteq> ''.webp''"
    proof
      assume "toLowerCase ext = ''.webp''"
      from toLowerCase_eq_length [OF this] l show False by simp
    qed
    ultimately have "toLowerCase ext = ''.png'' \<or> toLowerCase ext = ''.jpg''"
      using assms by simp
    with a cs show False by auto
  qed
  with Cons.IH show ?case by simp
qed

lemma replace_ext_id:
  assumes "\<forall>e \<in> set [''.png'', ''.jpg'', ''.jpeg'', ''.webp'']. \<not> suffix e (toLowerCase base)"
  shows "replace_ext base = base"
  using assms
proof (induction base)
  case Nil
  then show ?case by simp
next
  case (Cons c cs)
  from Cons.prems have "toLowerCase (c # cs) \<notin> set [''.png'', ''.jpg'', ''.jpeg'', ''.webp'']"
    by (metis suffix_order.order_refl)
  moreover from Cons.prems
  have "\<forall>e \<in> set [''.png'', ''.jpg'', ''.jpeg'', ''.webp'']. \<not> suffix e (toLowerCase cs)"
    by (simp add: suffix_Cons)
  ultimately show ?case using Cons.IH by simp
qed

lemma cleanImageName_strips:
  assumes b: "\<not> includes_str (toLowerCase base) ''_compressed''"
    and m: "marker = [] \<or> toLowerCase marker = ''_compressed''"
    and e: "toLowerCase ext \<in> set [''.png'', ''.jpg'', ''.jpeg'', ''.webp'']"
  shows "cleanImageName (base @ marker @ ext) = toLowerCase base"
proof -
  have "replace_compressed (base @ marker @ ext) = base @ ext"
  proof (cases "marker = []")
    case True
    with b e show ?thesis by (simp add: replace_compressed_ext)
  next
    case False
    with m have "toLowerCase marker = ''_compressed''" by simp
    from replace_compressed_marker [OF b this, of ext] ext_cases(4) [OF e]
    show ?thesis by (simp add: replace_compressed_id)
  qed
  with e show ?thesis by (simp add: cleanImageName_def replace_ext_strips)
qed

lemma cleanImageName_strips_marker:
  assumes b: "\<not> includes_str (toLowerCase base) ''_compressed''"
    and m: "marker = [] \<or> toLowerCase marker = ''_compressed''"
    and e: "\<forall>e \<in> set [''.png'', ''.jpg'', ''.jpeg'', ''.webp'']. \<not> suffix e (toLowerCase base)"
  shows "cleanImageName (base @ marker) = toLowerCase base"
proof -
  have "replace_compressed (base @ marker) = base"
  proof (cases "marker = []")
    case True
    with b show ?thesis by (simp add: replace_compressed_id)
  next
    case False
    with m have "toLowerCase marker = ''_compressed''" by simp
    from replace_compressed_marker [OF b this, of "[]"] show ?thesis by simp
  qed
  with e show ?thesis by (simp add: cleanImageName_def replace_ext_id)
qed

text \<open>
  Claim C1, as the source has it. The pattern is "chap", in any case, then any number of
  underscores and white space, then a run of digits, then exactly one underscore, then a
  run of digits. \<open>imgMatch\<close> returns the two runs of the leftmost occurrence in the cleaned
  name, each as long as it can be, and it returns nothing exactly when the cleaned name has
  no occurrence; it never fails. The cleaned name of a base name followed by an optional
  "_compressed" in any case and by one of the four image extensions in any case is the
  lower-cased base name, where the base name itself holds no "_compressed"; without an
  extension the same holds where the base name does not end in one.
\<close>

theorem imgMatch_characterisation:
  "(imgMatch fileName = Some (a, b) \<longleftrightarrow>
      (\<exists>pre kw seps rest.
          cleanImageName fileName = pre @ kw @ seps @ a @ ''_'' @ b @ rest
        \<and> matchChap pre = None \<and> toLowerCase kw = ''chap'' \<and> (\<forall>c \<in> set seps. isSep c)
        \<and> a \<noteq> [] \<and> (\<forall>c \<in> set a. isDigit c) \<and> b \<noteq> [] \<and> (\<forall>c \<in> set b. isDigit c)
        \<and> (rest = [] \<or> \<not> isDigit (hd rest))))
   \<and> (imgMatch fileName = None \<longleftrightarrow>
      \<not> (\<exists>pre kw seps a' b' rest.
          cleanImageName fileName = pre @ kw @ seps @ a' @ ''_'' @ b' @ rest
        \<and> toLowerCase kw = ''chap'' \<and> (\<forall>c \<in> set seps. isSep c)
        \<and> a' \<noteq> [] \<and> (\<forall>c \<in> set a'. isDigit c) \<and> b' \<noteq> [] \<and> (\<forall>c \<in> set b'. isDigit c)))
   \<and> (\<not> includes_str (toLowerCase base) ''_compressed''
        \<and> (marker = [] \<or> toLowerCase marker = ''_compressed'')
        \<and> toLowerCase ext \<in> set [''.png'', ''.jpg'', ''.jpeg'', ''.webp'']
      \<longrightarrow> cleanImageName (base @ marker @ ext) = toLowerCase base)
   \<and> (\<not> includes_str (toLowerCase base) ''_compressed''
        \<and> (marker = [] \<or> toLowerCase marker = ''_compressed'')
        \<and> (\<forall>e \<in> set [''.png'', ''.jpg'', ''.jpeg'', ''.webp'']. \<not> suffix e (toLowerCase base))
      \<longrightarrow> cleanImageName (base @ marker) = toLowerCase base)"
proof -
  let ?n = "cleanImageName fileName"
  have found: "matchChap (pre @ kw @ seps @ x @ ''_'' @ y @ rest) = Some (x, y)"
    if "matchChap pre = None" "toLowerCase kw = ''chap''" "\<forall>c \<in> set seps. isSep c"
      "x \<noteq> []" "\<forall>c \<in> set x. isDigit c" "y \<noteq> []" "\<forall>c \<in> set y. isDigit c"
      "rest = [] \<or> \<not> isDigit (hd rest)"
    for pre kw seps x y rest
  proof -
    from that(2) obtain k ks where kw: "kw = k # ks" and k: "lowerChar k = CHR ''c''"
      by (cases kw) auto
    from that have at: "matchChapAt (kw @ seps @ x @ ''_'' @ y @ rest) = Some (x, y)"
      by (intro matchChapAt_intro)
    from matchChap_append [OF k, of pre "ks @ seps @ x @ ''_'' @ y @ rest"] that(1)
    have "matchChap (pre @ kw @ seps @ x @ ''_'' @ y @ rest)
          = matchChap (kw @ seps @ x @ ''_'' @ y @ rest)"
      by (simp add: kw)
    also from at have "\<dots> = Some (x, y)" by (simp add: kw)
    finally show ?thesis .
  qed
  have shape: "\<exists>pre kw seps rest.
          s = pre @ kw @ seps @ x @ ''_'' @ y @ rest
        \<and> matchChap pre = None \<and> toLowerCase kw = ''chap'' \<and> (\<forall>c \<in> set seps. isSep c)
        \<and> x \<noteq> [] \<and> (\<forall>c \<in> set x. isDigit c) \<and> y \<noteq> [] \<and> (\<forall>c \<in> set y. isDigit c)
        \<and> (rest = [] \<or> \<not> isDigit (hd rest))"
    if "matchChap s = Some (x, y)" for s x y
  proof -
    from matchChap_elim [OF that] obtain pre u where
      u: "s = pre @ u" "matchChap pre = None" "matchChapAt u = Some (x, y)"
      by blast
    from matchChapAt_elim [OF u(3)] obtain kw seps rest where
      "u = kw @ seps @ x @ ''_'' @ y @ rest" "toLowerCase kw = ''chap''"
      "\<forall>c \<in> set seps. isSep c" "rest = [] \<or> \<not> isDigit (hd rest)"
      by blast
    with u matchChapAt_digits [OF u(3)] show ?thesis by blast
  qed
  have occurs: "matchChap (pre @ kw @ seps @ x @ ''_'' @ y @ rest) \<noteq> None"
    if "toLowerCase kw = ''chap''" "\<forall>c \<in> set seps. isSep c"
      "x \<noteq> []" "\<forall>c \<in> set x. isDigit c" "y \<noteq> []" "\<forall>c \<in> set y. isDigit c"
    for pre kw seps x y rest
  proof -
    let ?y = "y @ takeWhile isDigit rest"
    let ?r = "dropWhile isDigit rest"
    have "matchChapAt (kw @ seps @ x @ ''_'' @ ?y @ ?r) = Some (x, ?y)"
      using that hd_dropWhile [of isDigit rest]
      by (intro matchChapAt_intro) (auto dest: set_takeWhileD)
    then have "matchChapAt (kw @ seps @ x @ ''_'' @ y @ rest) = Some (x, ?y)" by simp
    from matchChap_found [OF this] show ?thesis .
  qed
  have 1: "imgMatch fileName = Some (a, b) \<longleftrightarrow>
      (\<exists>pre kw seps rest.
          ?n = pre @ kw @ seps @ a @ ''_'' @ b @ rest
        \<and> matchChap pre = None \<and> toLowerCase kw = ''chap'' \<and> (\<forall>c \<in> set seps. isSep c)
        \<and> a \<noteq> [] \<and> (\<forall>c \<in> set a. isDigit c) \<and> b \<noteq> [] \<and> (\<forall>c \<in> set b. isDigit c)
        \<and> (rest = [] \<or> \<not> isDigit (hd rest)))"
  proof
    assume "imgMatch fileName = Some (a, b)"
    then have "matchChap ?n = Some (a, b)" by (simp add: imgMatch_def)
    from shape [OF this] show "\<exists>pre kw seps rest.
          ?n = pre @ kw @ seps @ a @ ''_'' @ b @ rest
        \<and> matchChap pre = None \<and> toLowerCase kw = ''chap'' \<and> (\<forall>c \<in> set seps. isSep c)
        \<and> a \<noteq> [] \<and> (\<forall>c \<in> set a. isDigit c) \<and> b \<noteq> [] \<and> (\<forall>c \<in> set b. isDigit c)
        \<and> (rest = [] \<or> \<not> isDigit (hd rest))" .
  next
    assume "\<exists>pre kw seps rest.
          ?n = pre @ kw @ seps @ a @ ''_'' @ b @ rest
        \<and> matchChap pre = None \<and> toLowerCase kw = ''chap'' \<and> (\<forall>c \<in> set seps. isSep c)
        \<and> a \<noteq> [] \<and> (\<forall>c \<in> set a. isDigit c) \<and> b \<noteq> [] \<and> (\<forall>c \<in> set b. isDigit c)
        \<and> (rest = [] \<or> \<not> isDigit (hd rest))"
    then obtain pre kw seps rest where
      e: "?n = pre @ kw @ seps @ a @ ''_'' @ b @ rest"
      and h: "matchChap pre = None" "toLowerCase kw = ''chap''" "\<forall>c \<in> set seps. isSep c"
        "a \<noteq> []" "\<forall>c \<in> set a. isDigit c" "b \<noteq> []" "\<forall>c \<in> set b. isDigit c"
        "rest = [] \<or> \<not> isDigit (hd rest)"
      by blast
    from found [OF h] e show "imgMatch fileName = Some (a, b)" by (simp add: imgMatch_def)
  qed
  have 2: "imgMatch fileName = None \<longleftrightarrow>
      \<not> (\<exists>pre kw seps a' b' rest.
          ?n = pre @ kw @ seps @ a' @ ''_'' @ b' @ rest
        \<and> toLowerCase kw = ''chap'' \<and> (\<forall>c \<in> set seps. isSep c)
        \<and> a' \<noteq> [] \<and> (\<forall>c \<in> set a'. isDigit c) \<and> b' \<noteq> [] \<and> (\<forall>c \<in> set b'. isDigit c))"
  proof
    assume n: "imgMatch fileName = None"
    show "\<not> (\<exists>pre kw seps a' b' rest.
          ?n = pre @ kw @ seps @ a' @ ''_'' @ b' @ rest
        \<and> toLowerCase kw = ''chap'' \<and> (\<forall>c \<in> set seps. isSep c)
        \<and> a' \<noteq> [] \<and> (\<forall>c \<in> set a'. isDigit c) \<and> b' \<noteq> [] \<and> (\<forall>c \<in> set b'. isDigit c))"
    proof
      assume "\<exists>pre kw seps a' b' rest.
          ?n = pre @ kw @ seps @ a' @ ''_'' @ b' @ rest
        \<and> toLowerCase kw = ''chap'' \<and> (\<forall>c \<in> set seps. isSep c)
        \<and> a' \<noteq> [] \<and> (\<forall>c \<in> set a'. isDigit c) \<and> b' \<noteq> [] \<and> (\<forall>c \<in> set b'. isDigit c)"
      then obtain pre kw seps a' b' rest where
        e: "?n = pre @ kw @ seps @ a' @ ''_'' @ b' @ rest"
        and h: "toLowerCase kw = ''chap''" "\<forall>c \<in> set seps. isSep c"
          "a' \<noteq> []" "\<forall>c \<in> set a'. isDigit c" "b' \<noteq> []" "\<forall>c \<in> set b'. isDigit c"
        by blast
      from occurs [OF h, of pre rest] e n show False by (simp add: imgMatch_def)
    qed
  next
    assume n: "\<not> (\<exists>pre kw seps a' b' rest.
          ?n = pre @ kw @ seps @ a' @ ''_'' @ b' @ rest
        \<and> toLowerCase kw = ''chap'' \<and> (\<forall>c \<in> set seps. isSep c)
        \<and> a' \<noteq> [] \<and> (\<forall>c \<in> set a'. isDigit c) \<and> b' \<noteq> [] \<and> (\<forall>c \<in> set b'. isDigit c))"
    show "imgMatch fileName = None"
    proof (rule ccontr)
      assume "imgMatch fileName \<noteq> None"
      then obtain x y where "matchChap ?n = Some (x, y)" by (auto simp: imgMatch_def)
      from shape [OF this] n show False by blast
    qed
  qed
  have 3: "\<not> includes_str (toLowerCase base) ''_compressed''
        \<and> (marker = [] \<or> toLowerCase marker = ''_compressed'')
        \<and> toLowerCase ext \<in> set [''.png'', ''.jpg'', ''.jpeg'', ''.webp'']
      \<longrightarrow> cleanImageName (base @ marker @ ext) = toLowerCase base"
    using cleanImageName_strips by blast
  have 4: "\<not> includes_str (toLowerCase base) ''_compressed''
        \<and> (marker = [] \<or> toLowerCase marker = ''_compressed'')
        \<and> (\<forall>e \<in> set [''.png'', ''.jpg'', ''.jpeg'', ''.webp'']. \<not> suffix e (toLowerCase base))
      \<longrightarrow> cleanImageName (base @ marker) = toLowerCase base"
    using cleanImageName_strips_marker by blast
  from 1 2 3 4 show ?thesis by blast
qed

theorem imgMatch_characterisation_witness:
  "cleanImageName (''Scene_CHAP_1_2'' @ ''_Compressed'' @ ''.PNG'') = ''scene_chap_1_2''
   \<and> matchChap ''scene_'' = None
   \<and> imgMatch ''Scene_CHAP_1_2_Compressed.PNG'' = Some (''1'', ''2'')
   \<and> imgMatch ''unrelated.png'' = None"
proof -
  note t = imgMatch_characterisation
     [where fileName = "''Scene_CHAP_1_2_Compressed.PNG''" and a = "''1''" and b = "''2''"
        and base = "''Scene_CHAP_1_2''" and marker = "''_Compressed''" and ext = "''.PNG''"]
  have b: "\<not> includes_str (toLowerCase ''Scene_CHAP_1_2'') ''_compressed''" by code_simp
  have m: "toLowerCase ''_Compressed'' = ''_compressed''" by code_simp
  have e: "toLowerCase ''.PNG'' \<in> set [''.png'', ''.jpg'', ''.jpeg'', ''.webp'']" by code_simp
  have l: "toLowerCase ''Scene_CHAP_1_2'' = ''scene_chap_1_2''" by code_simp
  from t b m e
  have "cleanImageName (''Scene_CHAP_1_2'' @ ''_Compressed'' @ ''.PNG'') = toLowerCase ''Scene_CHAP_1_2''"
    by blast
  with l have c: "cleanImageName (''Scene_CHAP_1_2'' @ ''_Compressed'' @ ''.PNG'') = ''scene_chap_1_2''"
    by (simp only:)
  have p: "matchChap ''scene_'' = None" by code_simp
  have k: "toLowerCase ''chap'' = ''chap''" by code_simp
  have d: "\<forall>c \<in> set ''_''. isSep c" "\<forall>c \<in> set ''1''. isDigit c" "\<forall>c \<in> set ''2''. isDigit c"
    by (simp_all add: isSep_def isDigit_def)
  from c have n: "cleanImageName ''Scene_CHAP_1_2_Compressed.PNG''
      = ''scene_'' @ ''chap'' @ ''_'' @ ''1'' @ ''_'' @ ''2'' @ []"
    by simp
  have "\<exists>pre kw seps rest.
          cleanImageName ''Scene_CHAP_1_2_Compressed.PNG'' = pre @ kw @ seps @ ''1'' @ ''_'' @ ''2'' @ rest
        \<and> matchChap pre = None \<and> toLowerCase kw = ''chap'' \<and> (\<forall>c \<in> set seps. isSep c)
        \<and> ''1'' \<noteq> [] \<and> (\<forall>c \<in> set ''1''. isDigit c) \<and> ''2'' \<noteq> [] \<and> (\<forall>c \<in> set ''2''. isDigit c)
        \<and> (rest = [] \<or> \<not> isDigit (hd rest))"
    using n p k d
    by (intro exI [of _ "''scene_''"] exI [of _ "''chap''"] exI [of _ "''_''"] exI [of _ "[]"] conjI)
       (simp_all only: simp_thms list.simps)
  with t have i: "imgMatch ''Scene_CHAP_1_2_Compressed.PNG'' = Some (''1'', ''2'')" by blast
  have u: "imgMatch ''unrelated.png'' = None" by code_simp
  from c p i u show ?thesis by blast
qed

text \<open>
  Claim C1 as it is written allows any separator between the two integers. With a space
  between them the pattern does not match and nothing is returned.
\<close>

theorem imgMatch_space_between_counterexample:
  "imgMatch ''scene_chap_1 2.png'' = None"
  by code_simp

subsection \<open>The scan over the prompt records\<close>

lemma split_delim_nonempty: "split_delim s \<noteq> []"
  by (induction s rule: split_delim.induct) (auto simp: Let_def)

lemma split_delim_none:
  "\<not> includes_str s ''||'' \<Longrightarrow> split_delim s = [s]"
  by (induction s rule: split_delim.induct) (auto simp: Let_def)

lemma split_delim_first:
  assumes "\<not> includes_str (a @ ''|'') ''||''"
  shows "split_delim (a @ ''||'' @ b) = a # split_delim b"
  using assms
proof (induction a)
  case Nil
  then show ?case by simp
next
  case (Cons c cs)
  from Cons.prems have n: "\<not> includes_str (cs @ ''|'') ''||''" by simp
  obtain d r where dr: "cs @ ''||'' @ b = d # r" by (cases cs) auto
  from Cons.prems dr have nn: "\<not> (c = CHR ''|'' \<and> d = CHR ''|'')" by (cases cs) auto
  have "split_delim ((c # cs) @ ''||'' @ b) = split_delim (c # d # r)" using dr by simp
  also have "\<dots> = (c # hd (split_delim (d # r))) # tl (split_delim (d # r))"
    using nn by (auto simp: Let_def)
  also have "split_delim (d # r) = cs # split_delim b" using Cons.IH [OF n] dr by simp
  finally show ?case by simp
qed

lemma split_delim_length:
  "includes_str s ''||'' \<Longrightarrow> 2 \<le> length (split_delim s)"
proof (induction s rule: split_delim.induct)
  case (1 c d cs)
  show ?case
  proof (cases "c = CHR ''|'' \<and> d = CHR ''|''")
    case True
    then show ?thesis using split_delim_nonempty [of cs] by (cases "split_delim cs") auto
  next
    case False
    with 1 have "2 \<le> length (split_delim (d # cs))" by auto
    with False show ?thesis by (auto simp: Let_def)
  qed
qed auto

lemma trim_core:
  assumes "\<forall>c \<in> set l. isSpace c" and "\<forall>c \<in> set r. isSpace c"
    and "core = [] \<or> (\<not> isSpace (hd core) \<and> \<not> isSpace (last core))"
  shows "trim (l @ core @ r) = core"
proof (cases "core = []")
  case True
  with assms(1,2) show ?thesis by (auto simp: trim_def dest: set_dropWhileD)
next
  case False
  with assms(3) have h: "\<not> isSpace (hd core)" and t: "\<not> isSpace (last core)" by simp_all
  have 1: "dropWhile isSpace (l @ core @ r) = core @ r"
    using dropWhile_append_keep [of "core @ r" isSpace l] False h assms(1) by simp
  from False t have "hd (rev core) = last core" by (simp add: hd_rev)
  with False t have 2: "dropWhile isSpace (rev r @ rev core) = rev core"
    using dropWhile_append_keep [of "rev core" isSpace "rev r"] assms(2) by simp
  from 1 2 show ?thesis by (simp add: trim_def)
qed

lemma promptEntry_parts:
  assumes "outputAi e = ptext @ ''||'' @ tag" and "\<not> includes_str (ptext @ ''|'') ''||''"
  shows "promptTextOf e = trim ptext"
    and "recordChapter e = matchChap (trim (hd (split_delim tag)))"
    and "\<not> includes_str tag ''||'' \<Longrightarrow> recordChapter e = matchChap (trim tag)"
proof -
  from split_delim_first [OF assms(2), of tag] assms(1)
  have s: "split_delim (outputAi e) = ptext # split_delim tag"
    by simp
  have i: "includes_str (outputAi e) ''||''"
    unfolding includes_str_iff assms(1) by blast
  from s show "promptTextOf e = trim ptext" by (simp add: promptTextOf_def)
  from s i split_delim_nonempty [of tag]
  show r: "recordChapter e = matchChap (trim (hd (split_delim tag)))"
    by (cases "split_delim tag") (simp_all add: recordChapter_def)
  assume "\<not> includes_str tag ''||''"
  with r show "recordChapter e = matchChap (trim tag)" by (simp add: split_delim_none)
qed

lemma scanPrompts_find:
  assumes "\<forall>c \<in> set (fst m). isDigit c"
  shows "scanPrompts (chapterKey m) rs
         = map_option promptTextOf (find (\<lambda>r. recordChapter r = Some m) rs)"
proof (induction rs)
  case Nil
  then show ?case by simp
next
  case (Cons r rs)
  show ?case
  proof (cases "includes_str (outputAi r) ''||''")
    case False
    with Cons show ?thesis by (simp add: recordChapter_def)
  next
    case True
    show ?thesis
    proof (cases "matchChap (trim (split_delim (outputAi r) ! 1))")
      case None
      with True Cons show ?thesis by (simp add: recordChapter_def Let_def)
    next
      case (Some j)
      obtain a b where j: "j = (a, b)" by (cases j)
      obtain a' b' where m: "m = (a', b')" by (cases m)
      from Some j have "\<forall>c \<in> set a. isDigit c" using matchChap_digits by blast
      with assms m have "chapterKey m = chapterKey j \<longleftrightarrow> m = j"
        unfolding j m by (simp add: chapterKey_inject)
      with True Some Cons show ?thesis
        by (auto simp add: recordChapter_def promptTextOf_def Let_def)
    qed
  qed
qed

subsection \<open>Digit runs as numbers\<close>

lemma digitValue_less: "isDigit c \<Longrightarrow> digitValue c < 10"
  by (auto simp: isDigit_def digitValue_def)

lemma digitValue_inject:
  assumes "isDigit c" and "isDigit d" and "digitValue c = digitValue d"
  shows "c = d"
proof -
  from assms have "(of_char c :: nat) - 48 = of_char d - 48"
    and "48 \<le> (of_char c :: nat)" and "48 \<le> (of_char d :: nat)"
    by (simp_all add: isDigit_def digitValue_def)
  then have "(of_char c :: nat) = of_char d" by linarith
  then show ?thesis by (simp only: of_char_eq_iff)
qed

lemma digitValue_pos: "isDigit c \<Longrightarrow> c \<noteq> CHR ''0'' \<Longrightarrow> 1 \<le> digitValue c"
proof -
  assume d: "isDigit c" and n: "c \<noteq> CHR ''0''"
  have "(of_char c :: nat) \<noteq> 48"
  proof
    assume "(of_char c :: nat) = 48"
    then have "(of_char c :: nat) = of_char (CHR ''0'')" by simp
    then have "c = CHR ''0''" by (simp only: of_char_eq_iff)
    with n show False by simp
  qed
  with d show ?thesis by (auto simp: isDigit_def digitValue_def)
qed

lemma decimal_snoc: "decimal (xs @ [c]) = 10 * decimal xs + digitValue c"
  by (simp add: decimal_def)

lemma decimal_upper: "\<forall>c \<in> set xs. isDigit c \<Longrightarrow> decimal xs < 10 ^ length xs"
proof (induction xs rule: rev_induct)
  case Nil
  then show ?case by (simp add: decimal_def)
next
  case (snoc c xs)
  then have "decimal xs < 10 ^ length xs" and "digitValue c < 10"
    by (simp_all add: digitValue_less)
  then show ?case by (simp add: decimal_snoc)
qed

lemma decimal_lower:
  "xs \<noteq> [] \<Longrightarrow> \<forall>c \<in> set xs. isDigit c \<Longrightarrow> hd xs \<noteq> CHR ''0'' \<Longrightarrow> 10 ^ (length xs - 1) \<le> decimal xs"
proof (induction xs rule: rev_induct)
  case Nil
  then show ?case by simp
next
  case (snoc c xs)
  show ?case
  proof (cases "xs = []")
    case True
    with snoc.prems digitValue_pos [of c] show ?thesis by (simp add: decimal_def)
  next
    case False
    with snoc have "10 ^ (length xs - 1) \<le> decimal xs" by simp
    then have "10 * 10 ^ (length xs - 1) \<le> 10 * decimal xs" by simp
    moreover from False have "(10::nat) * 10 ^ (length xs - 1) = 10 ^ length xs"
      by (cases xs) simp_all
    ultimately show ?thesis by (simp add: decimal_snoc)
  qed
qed

lemma foldl_decimal_inject:
  assumes "length xs = length ys"
    and "\<forall>c \<in> set xs. isDigit c" and "\<forall>c \<in> set ys. isDigit c"
    and "foldl (\<lambda>n c. 10 * n + digitValue c) a xs = foldl (\<lambda>n c. 10 * n + digitValue c) b ys"
  shows "a = b \<and> xs = ys"
  using assms
proof (induction xs ys arbitrary: a b rule: list_induct2)
  case Nil
  then show ?case by simp
next
  case (Cons x xs y ys)
  from Cons.prems have dx: "isDigit x" and dy: "isDigit y" by simp_all
  from Cons.prems Cons.IH [of "10 * a + digitValue x" "10 * b + digitValue y"]
  have e: "10 * a + digitValue x = 10 * b + digitValue y" and t: "xs = ys" by simp_all
  from digitValue_less [OF dx] digitValue_less [OF dy] e
  have "a = b" and "digitValue x = digitValue y" by arith+
  with digitValue_inject [OF dx dy] t show ?case by simp
qed

lemma decimal_inject:
  assumes dx: "\<forall>c \<in> set xs. isDigit c" and dy: "\<forall>c \<in> set ys. isDigit c"
    and nx: "noLeadingZero xs" and ny: "noLeadingZero ys"
    and e: "decimal xs = decimal ys"
  shows "xs = ys"
proof -
  have z: "decimal ''0'' = 0" by (simp add: decimal_def digitValue_def)
  have pos: "1 \<le> decimal ds" if "ds \<noteq> []" "hd ds \<noteq> CHR ''0''" "\<forall>c \<in> set ds. isDigit c" for ds
  proof -
    from decimal_lower [OF that(1,3,2)] have "10 ^ (length ds - 1) \<le> decimal ds" .
    moreover have "(1::nat) \<le> 10 ^ (length ds - 1)" by simp
    ultimately show ?thesis by linarith
  qed
  show ?thesis
  proof (cases "xs = ''0'' \<or> ys = ''0''")
    case True
    then show ?thesis
    proof
      assume x: "xs = ''0''"
      show ?thesis
      proof (rule ccontr)
        assume "xs \<noteq> ys"
        with x ny have "ys \<noteq> []" "hd ys \<noteq> CHR ''0''" by (auto simp: noLeadingZero_def)
        from pos [OF this dy] e x z show False by simp
      qed
    next
      assume y: "ys = ''0''"
      show ?thesis
      proof (rule ccontr)
        assume "xs \<noteq> ys"
        with y nx have "xs \<noteq> []" "hd xs \<noteq> CHR ''0''" by (auto simp: noLeadingZero_def)
        from pos [OF this dx] e y z show False by simp
      qed
    qed
  next
    case False
    with nx ny have x: "xs \<noteq> []" "hd xs \<noteq> CHR ''0''" and y: "ys \<noteq> []" "hd ys \<noteq> CHR ''0''"
      by (auto simp: noLeadingZero_def)
    have l: "length xs = length ys"
    proof (rule ccontr)
      assume n: "length xs \<noteq> length ys"
      have c: False if "length as < length bs" "bs \<noteq> []" "hd bs \<noteq> CHR ''0''"
        "\<forall>c \<in> set as. isDigit c" "\<forall>c \<in> set bs. isDigit c" "decimal as = decimal bs" for as bs
      proof -
        from that(1) have "length as \<le> length bs - 1" by simp
        then have "(10::nat) ^ length as \<le> 10 ^ (length bs - 1)" by (simp add: power_increasing)
        with decimal_upper [OF that(4)] decimal_lower [OF that(2,5,3)] that(6) show False by simp
      qed
      from n consider "length xs < length ys" | "length ys < length xs" by linarith
      then show False
      proof cases
        case 1
        from c [OF 1 y dx dy e] show False .
      next
        case 2
        from c [OF 2 x dy dx e [symmetric]] show False .
      qed
    qed
    from foldl_decimal_inject [OF l dx dy, of 0 0] e show ?thesis by (simp add: decimal_def)
  qed
qed

text \<open>
  Claim C2, as the source has it. \<open>matchPromptToImage\<close> is a function of the file name and the
  list of records. It compares chapters as the digit runs are written (the joined keys
  "a_b" are compared as strings), so a leading zero counts. With the chapter of the file
  name found, the records before the first one with that chapter are passed over (among
  them every record without the delimiter and every record whose tag holds no chapter),
  and the result is the prompt text of that first record: the segment before the delimiter,
  trimmed. Of two records with the same chapter the earlier one gives the result. Without
  such a record, or without a chapter in the file name, the result is nothing. The prompt
  text of a record is the trimmed text before its first delimiter, and its chapter is the
  one found in the segment behind that delimiter, which ends at the next delimiter or, for
  a record with one delimiter, at the end of the string. Where no digit run has a leading
  zero, two chapters are equal as written exactly when they are equal as pairs of integers.
\<close>

theorem matchPromptToImage_first_match_wins:
  "(imgMatch fileName = Some m \<and> (\<forall>r \<in> set skipped. recordChapter r \<noteq> Some m)
      \<and> recordChapter e = Some m
    \<longrightarrow> matchPromptToImage fileName (skipped @ e # later) = Some (promptTextOf e))
   \<and> (imgMatch fileName = Some m \<and> (\<forall>r \<in> set records. recordChapter r \<noteq> Some m)
    \<longrightarrow> matchPromptToImage fileName records = None)
   \<and> (imgMatch fileName = None \<longrightarrow> matchPromptToImage fileName records = None)
   \<and> (imgMatch fileName = Some m \<and> recordChapter e1 = Some m \<and> recordChapter e2 = Some m
    \<longrightarrow> matchPromptToImage fileName (e1 # e2 # later) = Some (promptTextOf e1))
   \<and> (\<not> includes_str (outputAi e) ''||'' \<longrightarrow> recordChapter e = None)
   \<and> (outputAi e = ptext @ ''||'' @ tag \<and> \<not> includes_str (ptext @ ''|'') ''||''
    \<longrightarrow> promptTextOf e = trim ptext
      \<and> recordChapter e = matchChap (trim (hd (split_delim tag)))
      \<and> (\<not> includes_str tag ''||'' \<longrightarrow> recordChapter e = matchChap (trim tag)))
   \<and> (imgMatch fileName = Some m \<and> recordChapter e = Some m'
        \<and> noLeadingZero (fst m) \<and> noLeadingZero (snd m)
        \<and> noLeadingZero (fst m') \<and> noLeadingZero (snd m')
    \<longrightarrow> (chapterIdentifier m' = chapterIdentifier m \<longleftrightarrow> m' = m))"
proof -
  have d: "\<forall>c \<in> set (fst m). isDigit c" if "imgMatch fileName = Some m"
    using that matchChap_digits [of "cleanImageName fileName" "fst m" "snd m"]
    by (simp add: imgMatch_def)
  have f: "find (\<lambda>r. recordChapter r = Some m) (skipped @ e # later) = Some e"
    if "\<forall>r \<in> set skipped. recordChapter r \<noteq> Some m" "recordChapter e = Some m"
    using that by (induction skipped) auto
  have n: "find (\<lambda>r. recordChapter r = Some m) records = None"
    if "\<forall>r \<in> set records. recordChapter r \<noteq> Some m"
    using that by (simp add: find_None_iff)
  have s: "matchPromptToImage fileName rs
           = map_option promptTextOf (find (\<lambda>r. recordChapter r = Some m) rs)"
    if "imgMatch fileName = Some m" for rs
  proof (cases rs)
    case Nil
    then show ?thesis by (simp add: matchPromptToImage_def)
  next
    case (Cons r rs')
    with that d show ?thesis
      by (simp add: matchPromptToImage_def scanPrompts_find del: scanPrompts.simps)
  qed
  have 1: "imgMatch fileName = Some m \<and> (\<forall>r \<in> set skipped. recordChapter r \<noteq> Some m)
      \<and> recordChapter e = Some m
    \<longrightarrow> matchPromptToImage fileName (skipped @ e # later) = Some (promptTextOf e)"
    using s f by simp
  have 2: "imgMatch fileName = Some m \<and> (\<forall>r \<in> set records. recordChapter r \<noteq> Some m)
    \<longrightarrow> matchPromptToImage fileName records = None"
    using s n by simp
  have 3: "imgMatch fileName = None \<longrightarrow> matchPromptToImage fileName records = None"
    by (simp add: matchPromptToImage_def)
  have 4: "imgMatch fileName = Some m \<and> recordChapter e1 = Some m \<and> recordChapter e2 = Some m
    \<longrightarrow> matchPromptToImage fileName (e1 # e2 # later) = Some (promptTextOf e1)"
    using s by simp
  have 5: "\<not> includes_str (outputAi e) ''||'' \<longrightarrow> recordChapter e = None"
    by (simp add: recordChapter_def)
  have 6: "outputAi e = ptext @ ''||'' @ tag \<and> \<not> includes_str (ptext @ ''|'') ''||''
    \<longrightarrow> promptTextOf e = trim ptext
      \<and> recordChapter e = matchChap (trim (hd (split_delim tag)))
      \<and> (\<not> includes_str tag ''||'' \<longrightarrow> recordChapter e = matchChap (trim tag))"
    using promptEntry_parts [of e ptext tag] by blast
  have 7: "imgMatch fileName = Some m \<and> recordChapter e = Some m'
        \<and> noLeadingZero (fst m) \<and> noLeadingZero (snd m)
        \<and> noLeadingZero (fst m') \<and> noLeadingZero (snd m')
    \<longrightarrow> (chapterIdentifier m' = chapterIdentifier m \<longleftrightarrow> m' = m)"
  proof (intro impI)
    assume a: "imgMatch fileName = Some m \<and> recordChapter e = Some m'
        \<and> noLeadingZero (fst m) \<and> noLeadingZero (snd m)
        \<and> noLeadingZero (fst m') \<and> noLeadingZero (snd m')"
    then have "matchChap (cleanImageName fileName) = Some (fst m, snd m)"
      by (simp add: imgMatch_def)
    from matchChap_digits [OF this]
    have dm: "\<forall>c \<in> set (fst m). isDigit c" "\<forall>c \<in> set (snd m). isDigit c" by simp_all
    from a have "matchChap (trim (split_delim (outputAi e) ! 1)) = Some (fst m', snd m')"
      by (simp add: recordChapter_def split: if_splits)
    from matchChap_digits [OF this]
    have dm': "\<forall>c \<in> set (fst m'). isDigit c" "\<forall>c \<in> set (snd m'). isDigit c" by simp_all
    show "chapterIdentifier m' = chapterIdentifier m \<longleftrightarrow> m' = m"
    proof
      assume "chapterIdentifier m' = chapterIdentifier m"
      then have "decimal (fst m') = decimal (fst m)" and "decimal (snd m') = decimal (snd m)"
        by (simp_all add: chapterIdentifier_def)
      with a dm dm' have "fst m' = fst m" and "snd m' = snd m"
        by (auto intro: decimal_inject)
      then show "m' = m" by (simp add: prod_eq_iff)
    next
      assume "m' = m"
      then show "chapterIdentifier m' = chapterIdentifier m" by simp
    qed
  qed
  from 1 2 3 4 5 6 7 show ?thesis by blast
qed

theorem matchPromptToImage_first_match_wins_witness:
  "imgMatch ''scene_chap_1_3.png'' = Some (''1'', ''3'')
   \<and> recordChapter \<lparr>outputAi = ''No tag here''\<rparr> = None
   \<and> recordChapter \<lparr>outputAi = ''A hides || Chap 1_2''\<rparr> = Some (''1'', ''2'')
   \<and> recordChapter \<lparr>outputAi = ''B arrives || Chap_1_3''\<rparr> = Some (''1'', ''3'')
   \<and> recordChapter \<lparr>outputAi = ''C collides || chap 1_3''\<rparr> = Some (''1'', ''3'')
   \<and> promptTextOf \<lparr>outputAi = ''B arrives || Chap_1_3''\<rparr> = ''B arrives''
   \<and> matchPromptToImage ''scene_chap_1_3.png''
         ([\<lparr>outputAi = ''No tag here''\<rparr>, \<lparr>outputAi = ''A hides || Chap 1_2''\<rparr>]
          @ \<lparr>outputAi = ''B arrives || Chap_1_3''\<rparr> # [\<lparr>outputAi = ''C collides || chap 1_3''\<rparr>])
       = Some ''B arrives''
   \<and> matchPromptToImage ''scene_chap_1_3.png''
         [\<lparr>outputAi = ''B arrives || Chap_1_3''\<rparr>, \<lparr>outputAi = ''C collides || chap 1_3''\<rparr>]
       = Some ''B arrives''
   \<and> noLeadingZero ''1'' \<and> noLeadingZero ''2'' \<and> noLeadingZero ''3''
   \<and> chapterIdentifier (''1'', ''2'') \<noteq> chapterIdentifier (''1'', ''3'')"
proof -
  have i: "imgMatch ''scene_chap_1_3.png'' = Some (''1'', ''3'')" by code_simp
  have z: "noLeadingZero ''1''" "noLeadingZero ''2''" "noLeadingZero ''3''"
    by (simp_all add: noLeadingZero_def)
  have r0: "recordChapter \<lparr>outputAi = ''No tag here''\<rparr> = None" by code_simp
  have r1: "recordChapter \<lparr>outputAi = ''A hides || Chap 1_2''\<rparr> = Some (''1'', ''2'')"
    by code_simp
  have r2: "recordChapter \<lparr>outputAi = ''B arrives || Chap_1_3''\<rparr> = Some (''1'', ''3'')"
    by code_simp
  have r3: "recordChapter \<lparr>outputAi = ''C collides || chap 1_3''\<rparr> = Some (''1'', ''3'')"
    by code_simp
  have p: "promptTextOf \<lparr>outputAi = ''B arrives || Chap_1_3''\<rparr> = ''B arrives''"
    by code_simp
  have s: "\<forall>r \<in> set [\<lparr>outputAi = ''No tag here''\<rparr>, \<lparr>outputAi = ''A hides || Chap 1_2''\<rparr>].
             recordChapter r \<noteq> Some (''1'', ''3'')"
    using r0 r1 by simp
  note t = matchPromptToImage_first_match_wins
     [where fileName = "''scene_chap_1_3.png''" and m = "(''1'', ''3'')"
        and skipped = "[\<lparr>outputAi = ''No tag here''\<rparr>, \<lparr>outputAi = ''A hides || Chap 1_2''\<rparr>]"
        and e = "\<lparr>outputAi = ''B arrives || Chap_1_3''\<rparr>"
        and later = "[\<lparr>outputAi = ''C collides || chap 1_3''\<rparr>]"
        and ?e1.0 = "\<lparr>outputAi = ''B arrives || Chap_1_3''\<rparr>"
        and ?e2.0 = "\<lparr>outputAi = ''C collides || chap 1_3''\<rparr>"]
  from t i s r2 have a: "matchPromptToImage ''scene_chap_1_3.png''
         ([\<lparr>outputAi = ''No tag here''\<rparr>, \<lparr>outputAi = ''A hides || Chap 1_2''\<rparr>]
          @ \<lparr>outputAi = ''B arrives || Chap_1_3''\<rparr> # [\<lparr>outputAi = ''C collides || chap 1_3''\<rparr>])
       = Some (promptTextOf \<lparr>outputAi = ''B arrives || Chap_1_3''\<rparr>)"
    by blast
  have b: "matchPromptToImage ''scene_chap_1_3.png''
         [\<lparr>outputAi = ''B arrives || Chap_1_3''\<rparr>, \<lparr>outputAi = ''C collides || chap 1_3''\<rparr>]
       = Some ''B arrives''"
    by code_simp
  from a p have "matchPromptToImage ''scene_chap_1_3.png''
         ([\<lparr>outputAi = ''No tag here''\<rparr>, \<lparr>outputAi = ''A hides || Chap 1_2''\<rparr>]
          @ \<lparr>outputAi = ''B arrives || Chap_1_3''\<rparr> # [\<lparr>outputAi = ''C collides || chap 1_3''\<rparr>])
       = Some ''B arrives''"
    by (simp only:)
  moreover from matchPromptToImage_first_match_wins
     [where fileName = "''scene_chap_1_3.png''" and m = "(''1'', ''3'')"
        and e = "\<lparr>outputAi = ''A hides || Chap 1_2''\<rparr>" and m' = "(''1'', ''2'')"]
     i r1 z
  have "chapterIdentifier (''1'', ''2'') \<noteq> chapterIdentifier (''1'', ''3'')"
    by simp
  ultimately show ?thesis using i r0 r1 r2 r3 p b z by blast
qed

text \<open>
  Claim C2 as it is written takes the chapter as a pair of integers. The tag "chap 01_2"
  names the integers 1 and 2, as the file name "chap_1_2.png" does, and its record comes
  first; the source compares "01_2" with "1_2" as strings, passes the record over and
  returns the prompt text of the second record.
\<close>

theorem matchPromptToImage_leading_zero_counterexample:
  "map_option chapterIdentifier (imgMatch ''chap_1_2.png'') = Some (1, 2)
   \<and> map_option chapterIdentifier (recordChapter \<lparr>outputAi = ''first || chap 01_2''\<rparr>) = Some (1, 2)
   \<and> map_option chapterIdentifier (recordChapter \<lparr>outputAi = ''second || chap 1_2''\<rparr>) = Some (1, 2)
   \<and> matchPromptToImage ''chap_1_2.png''
        [\<lparr>outputAi = ''first || chap 01_2''\<rparr>, \<lparr>outputAi = ''second || chap 1_2''\<rparr>]
      = Some ''second''"
  by code_simp

section \<open>Properties of the scene analysis\<close>

text \<open>
  Claim C8. \<open>detectSettingFromPrompt\<close> applies its substring checks to the lower-cased
  prompt in a fixed order, the first that succeeds deciding the result: "vip" gives the VIP
  hospital; otherwise "hospital" or "rumah sakit" gives the regular hospital; otherwise
  "living" or "ruang tamu" gives the living room; otherwise "bedroom" or "kamar tidur" gives
  the bedroom; otherwise the result is generic. So a prompt with both "vip" and "hospital"
  yields the VIP hospital setting and not the regular one, while "hospital" without "vip"
  yields the regular one.
\<close>

theorem detectSetting_vip_precedes_hospital:
  "(includes_str (toLowerCase t) ''vip'' \<and> includes_str (toLowerCase t) ''hospital''
      \<longrightarrow> detectSettingFromPrompt t = ''hospital_vip''
        \<and> detectSettingFromPrompt t \<noteq> ''hospital_regular'')
   \<and> (includes_str (toLowerCase t) ''vip'' \<longrightarrow> detectSettingFromPrompt t = ''hospital_vip'')
   \<and> (\<not> includes_str (toLowerCase t) ''vip''
        \<and> (includes_str (toLowerCase t) ''hospital'' \<or> includes_str (toLowerCase t) ''rumah sakit'')
      \<longrightarrow> detectSettingFromPrompt t = ''hospital_regular'')
   \<and> (\<not> includes_str (toLowerCase t) ''vip''
        \<and> \<not> includes_str (toLowerCase t) ''hospital'' \<and> \<not> includes_str (toLowerCase t) ''rumah sakit''
        \<and> (includes_str (toLowerCase t) ''living'' \<or> includes_str (toLowerCase t) ''ruang tamu'')
      \<longrightarrow> detectSettingFromPrompt t = ''apartment_living_room'')
   \<and> (\<not> includes_str (toLowerCase t) ''vip''
        \<and> \<not> includes_str (toLowerCase t) ''hospital'' \<and> \<not> includes_str (toLowerCase t) ''rumah sakit''
        \<and> \<not> includes_str (toLowerCase t) ''living'' \<and> \<not> includes_str (toLowerCase t) ''ruang tamu''
        \<and> (includes_str (toLowerCase t) ''bedroom'' \<or> includes_str (toLowerCase t) ''kamar tidur'')
      \<longrightarrow> detectSettingFromPrompt t = ''apartment_bedroom'')
   \<and> (\<not> includes_str (toLowerCase t) ''vip''
        \<and> \<not> includes_str (toLowerCase t) ''hospital'' \<and> \<not> includes_str (toLowerCase t) ''rumah sakit''
        \<and> \<not> includes_str (toLowerCase t) ''living'' \<and> \<not> includes_str (toLowerCase t) ''ruang tamu''
        \<and> \<not> includes_str (toLowerCase t) ''bedroom'' \<and> \<not> includes_str (toLowerCase t) ''kamar tidur''
      \<longrightarrow> detectSettingFromPrompt t = ''generic'')"
proof (cases "t = []")
  case True
  then show ?thesis by (simp add: detectSettingFromPrompt_def)
next
  case False
  then show ?thesis by (simp add: detectSettingFromPrompt_def Let_def)
qed

theorem detectSetting_vip_precedes_hospital_witness:
  "includes_str (toLowerCase ''Hospital corridor, VIP ward'') ''vip''
   \<and> includes_str (toLowerCase ''Hospital corridor, VIP ward'') ''hospital''
   \<and> detectSettingFromPrompt ''Hospital corridor, VIP ward'' = ''hospital_vip''
   \<and> detectSettingFromPrompt ''Hospital corridor, VIP ward'' \<noteq> ''hospital_regular''
   \<and> \<not> includes_str (toLowerCase ''Hospital ward at night'') ''vip''
   \<and> includes_str (toLowerCase ''Hospital ward at night'') ''hospital''
   \<and> detectSettingFromPrompt ''Hospital ward at night'' = ''hospital_regular''
   \<and> \<not> includes_str (toLowerCase ''Kamar tidur, pagi'') ''vip''
   \<and> includes_str (toLowerCase ''Kamar tidur, pagi'') ''kamar tidur''
   \<and> detectSettingFromPrompt ''Kamar tidur, pagi'' = ''apartment_bedroom''
   \<and> detectSettingFromPrompt ''A street in the rain'' = ''generic''"
proof -
  have v: "includes_str (toLowerCase ''Hospital corridor, VIP ward'') ''vip''" by code_simp
  have h: "includes_str (toLowerCase ''Hospital corridor, VIP ward'') ''hospital''" by code_simp
  have nv: "\<not> includes_str (toLowerCase ''Hospital ward at night'') ''vip''" by code_simp
  have nh: "includes_str (toLowerCase ''Hospital ward at night'') ''hospital''" by code_simp
  have k: "\<not> includes_str (toLowerCase ''Kamar tidur, pagi'') ''vip''"
    "\<not> includes_str (toLowerCase ''Kamar tidur, pagi'') ''hospital''"
    "\<not> includes_str (toLowerCase ''Kamar tidur, pagi'') ''rumah sakit''"
    "\<not> includes_str (toLowerCase ''Kamar tidur, pagi'') ''living''"
    "\<not> includes_str (toLowerCase ''Kamar tidur, pagi'') ''ruang tamu''"
    "includes_str (toLowerCase ''Kamar tidur, pagi'') ''kamar tidur''"
    by code_simp+
  have g: "\<not> includes_str (toLowerCase ''A street in the rain'') ''vip''"
    "\<not> includes_str (toLowerCase ''A street in the rain'') ''hospital''"
    "\<not> includes_str (toLowerCase ''A street in the rain'') ''rumah sakit''"
    "\<not> includes_str (toLowerCase ''A street in the rain'') ''living''"
    "\<not> includes_str (toLowerCase ''A street in the rain'') ''ruang tamu''"
    "\<not> includes_str (toLowerCase ''A street in the rain'') ''bedroom''"
    "\<not> includes_str (toLowerCase ''A street in the rain'') ''kamar tidur''"
    by code_simp+
  from detectSetting_vip_precedes_hospital [of "''Hospital corridor, VIP ward''"] v h
  have 1: "detectSettingFromPrompt ''Hospital corridor, VIP ward'' = ''hospital_vip''
      \<and> detectSettingFromPrompt ''Hospital corridor, VIP ward'' \<noteq> ''hospital_regular''"
    by blast
  from detectSetting_vip_precedes_hospital [of "''Hospital ward at night''"] nv nh
  have 2: "detectSettingFromPrompt ''Hospital ward at night'' = ''hospital_regular''"
    by blast
  from detectSetting_vip_precedes_hospital [of "''Kamar tidur, pagi''"] k
  have 3: "detectSettingFromPrompt ''Kamar tidur, pagi'' = ''apartment_bedroom''"
    by blast
  from detectSetting_vip_precedes_hospital [of "''A street in the rain''"] g
  have 4: "detectSettingFromPrompt ''A street in the rain'' = ''generic''"
    by blast
  from v h nv nh k 1 2 3 4 show ?thesis by blast
qed

text \<open>
  Claim C7. \<open>detectCharactersFromPrompt\<close> lists the characters it finds in the fixed order
  MC, Raka, Alina, Aruna, whatever the order of the names in the text: the names of the
  result are a subsequence of that list, none occurs twice, and a name is in the result
  exactly when its lower-case form occurs in the lower-cased prompt. Aruna always gets the
  outfit "default", every other character the outfit that \<open>detectOutfit\<close> finds. A prompt with
  none of the four names yields the empty list. "MC and Raka in formal" yields MC and Raka,
  both formal, and so does the same text with the two names exchanged.
\<close>

theorem detectCharacters_fixed_order:
  "subseq (map cname (detectCharactersFromPrompt t)) [''MC'', ''Raka'', ''Alina'', ''Aruna'']
   \<and> distinct (map cname (detectCharactersFromPrompt t))
   \<and> (''MC'' \<in> set (map cname (detectCharactersFromPrompt t)) \<longleftrightarrow> includes_str (toLowerCase t) ''mc'')
   \<and> (''Raka'' \<in> set (map cname (detectCharactersFromPrompt t)) \<longleftrightarrow> includes_str (toLowerCase t) ''raka'')
   \<and> (''Alina'' \<in> set (map cname (detectCharactersFromPrompt t)) \<longleftrightarrow> includes_str (toLowerCase t) ''alina'')
   \<and> (''Aruna'' \<in> set (map cname (detectCharactersFromPrompt t)) \<longleftrightarrow> includes_str (toLowerCase t) ''aruna'')
   \<and> (\<forall>c \<in> set (detectCharactersFromPrompt t).
         outfit c = (if cname c = ''Aruna'' then ''default'' else detectOutfit (toLowerCase t)))
   \<and> (\<not> includes_str (toLowerCase t) ''mc'' \<and> \<not> includes_str (toLowerCase t) ''raka''
        \<and> \<not> includes_str (toLowerCase t) ''alina'' \<and> \<not> includes_str (toLowerCase t) ''aruna''
        \<longrightarrow> detectCharactersFromPrompt t = [])
   \<and> detectCharactersFromPrompt ''MC and Raka in formal''
        = [\<lparr>cname = ''MC'', outfit = ''formal''\<rparr>, \<lparr>cname = ''Raka'', outfit = ''formal''\<rparr>]
   \<and> detectCharactersFromPrompt ''Raka and MC in formal''
        = [\<lparr>cname = ''MC'', outfit = ''formal''\<rparr>, \<lparr>cname = ''Raka'', outfit = ''formal''\<rparr>]"
proof -
  have e: "t = [] \<Longrightarrow> \<not> includes_str (toLowerCase t) (x # xs)" for x xs
    by (simp add: toLowerCase_def)
  have 1: "subseq (map cname (detectCharactersFromPrompt t)) [''MC'', ''Raka'', ''Alina'', ''Aruna'']"
    by (simp add: detectCharactersFromPrompt_def Let_def)
  have 2: "distinct (map cname (detectCharactersFromPrompt t))"
    by (simp add: detectCharactersFromPrompt_def Let_def)
  have 3: "''MC'' \<in> set (map cname (detectCharactersFromPrompt t)) \<longleftrightarrow> includes_str (toLowerCase t) ''mc''"
    using e by (auto simp add: detectCharactersFromPrompt_def Let_def)
  have 4: "''Raka'' \<in> set (map cname (detectCharactersFromPrompt t)) \<longleftrightarrow> includes_str (toLowerCase t) ''raka''"
    using e by (auto simp add: detectCharactersFromPrompt_def Let_def)
  have 5: "''Alina'' \<in> set (map cname (detectCharactersFromPrompt t)) \<longleftrightarrow> includes_str (toLowerCase t) ''alina''"
    using e by (auto simp add: detectCharactersFromPrompt_def Let_def)
  have 6: "''Aruna'' \<in> set (map cname (detectCharactersFromPrompt t)) \<longleftrightarrow> includes_str (toLowerCase t) ''aruna''"
    using e by (auto simp add: detectCharactersFromPrompt_def Let_def)
  have 7: "\<forall>c \<in> set (detectCharactersFromPrompt t).
         outfit c = (if cname c = ''Aruna'' then ''default'' else detectOutfit (toLowerCase t))"
    by (auto simp add: detectCharactersFromPrompt_def Let_def)
  have 8: "\<not> includes_str (toLowerCase t) ''mc'' \<and> \<not> includes_str (toLowerCase t) ''raka''
        \<and> \<not> includes_str (toLowerCase t) ''alina'' \<and> \<not> includes_str (toLowerCase t) ''aruna''
        \<longrightarrow> detectCharactersFromPrompt t = []"
    by (simp add: detectCharactersFromPrompt_def Let_def)
  have 9: "detectCharactersFromPrompt ''MC and Raka in formal''
        = [\<lparr>cname = ''MC'', outfit = ''formal''\<rparr>, \<lparr>cname = ''Raka'', outfit = ''formal''\<rparr>]"
    by code_simp
  have 10: "detectCharactersFromPrompt ''Raka and MC in formal''
        = [\<lparr>cname = ''MC'', outfit = ''formal''\<rparr>, \<lparr>cname = ''Raka'', outfit = ''formal''\<rparr>]"
    by code_simp
  from 1 2 3 4 5 6 7 8 9 10 show ?thesis by blast
qed

theorem detectCharacters_fixed_order_witness:
  "map cname (detectCharactersFromPrompt ''Aruna visits; MC wears casual'') = [''MC'', ''Aruna'']
   \<and> map outfit (detectCharactersFromPrompt ''Aruna visits; MC wears casual'') = [''casual'', ''default'']
   \<and> \<not> includes_str (toLowerCase ''An empty corridor'') ''mc''
   \<and> \<not> includes_str (toLowerCase ''An empty corridor'') ''raka''
   \<and> \<not> includes_str (toLowerCase ''An empty corridor'') ''alina''
   \<and> \<not> includes_str (toLowerCase ''An empty corridor'') ''aruna''
   \<and> detectCharactersFromPrompt ''An empty corridor'' = []"
proof -
  have o: "detectOutfit (toLowerCase ''Aruna visits; MC wears casual'') = ''casual''"
    by code_simp
  have n: "map cname (detectCharactersFromPrompt ''Aruna visits; MC wears casual'') = [''MC'', ''Aruna'']"
    by code_simp
  have a: "\<not> includes_str (toLowerCase ''An empty corridor'') ''mc''"
    "\<not> includes_str (toLowerCase ''An empty corridor'') ''raka''"
    "\<not> includes_str (toLowerCase ''An empty corridor'') ''alina''"
    "\<not> includes_str (toLowerCase ''An empty corridor'') ''aruna''"
    by code_simp+
  from detectCharacters_fixed_order [of "''Aruna visits; MC wears casual''"] o
  have f: "\<forall>c \<in> set (detectCharactersFromPrompt ''Aruna visits; MC wears casual'').
         outfit c = (if cname c = ''Aruna'' then ''default'' else ''casual'')"
    by simp
  from n obtain x y where xy: "detectCharactersFromPrompt ''Aruna visits; MC wears casual'' = [x, y]"
    and "cname x = ''MC''" and "cname y = ''Aruna''"
    by auto
  with f have m: "map outfit (detectCharactersFromPrompt ''Aruna visits; MC wears casual'') = [''casual'', ''default'']"
    by simp
  from detectCharacters_fixed_order [of "''An empty corridor''"] a
  have "detectCharactersFromPrompt ''An empty corridor'' = []" by blast
  with n m a show ?thesis by blast
qed

section \<open>Properties of the review ledger\<close>

subsection \<open>Approving\<close>

text \<open>
  Claim C3, as the source has it. The Approve button sets the status of the current image
  and then moves to the next image whenever there is one; it does not look at the status
  the image had. So approving an image a second time (after selecting it again in the
  queue) leaves the list of images as the first call left it, with the image approved and
  every other image untouched, and it moves the active index exactly as the first call
  did: each of the two calls advances when a next image exists. On the last image no call
  advances, and a second call right after the first changes nothing.
\<close>

theorem approve_every_call_advances:
  assumes "qcIndex s < length (images s)"
  shows "\<exists>s1 s2. approve s = Some s1
           \<and> approve (selectItem (qcIndex s) s1) = Some s2
           \<and> status (images s1 ! qcIndex s) = Approved
           \<and> (\<forall>j < length (images s). j \<noteq> qcIndex s \<longrightarrow> images s1 ! j = images s ! j)
           \<and> images s2 = images s1
           \<and> qcIndex s1 = (if qcIndex s + 1 < length (images s) then qcIndex s + 1 else qcIndex s)
           \<and> qcIndex s2 = qcIndex s1
           \<and> (qcIndex s + 1 = length (images s) \<longrightarrow> approve s1 = Some s1)"
  using assms
  by (auto simp add: approve_def selectItem_def list_update_same_conv)

theorem approve_every_call_advances_witness:
  "qcIndex pendingLedger < length (images pendingLedger)
   \<and> (\<exists>s1 s2. approve pendingLedger = Some s1
          \<and> approve (selectItem (qcIndex pendingLedger) s1) = Some s2
          \<and> status (images s1 ! 0) = Approved
          \<and> images s2 = images s1
          \<and> qcIndex s1 = 1 \<and> qcIndex s2 = 1)
   \<and> qcIndex (selectItem 1 pendingLedger) + 1 = length (images (selectItem 1 pendingLedger))
   \<and> (\<exists>s1. approve (selectItem 1 pendingLedger) = Some s1 \<and> approve s1 = Some s1
          \<and> qcIndex s1 = 1)"
proof -
  have h: "qcIndex pendingLedger < length (images pendingLedger)"
    and q: "qcIndex pendingLedger = 0" and l: "length (images pendingLedger) = 2"
    by (simp_all add: pendingLedger_def exampleLedger_def initialState_def)
  have h': "qcIndex (selectItem 1 pendingLedger) < length (images (selectItem 1 pendingLedger))"
    and q': "qcIndex (selectItem 1 pendingLedger) = 1"
    and l': "length (images (selectItem 1 pendingLedger)) = 2"
    by (simp_all add: selectItem_def pendingLedger_def exampleLedger_def initialState_def)
  from approve_every_call_advances [OF h] q l h
  have a: "\<exists>s1 s2. approve pendingLedger = Some s1
          \<and> approve (selectItem (qcIndex pendingLedger) s1) = Some s2
          \<and> status (images s1 ! 0) = Approved
          \<and> images s2 = images s1
          \<and> qcIndex s1 = 1 \<and> qcIndex s2 = 1"
    by auto
  from approve_every_call_advances [OF h'] q' l'
  have b: "\<exists>s1. approve (selectItem 1 pendingLedger) = Some s1 \<and> approve s1 = Some s1
          \<and> qcIndex s1 = 1"
    by auto
  from a b h q' l' show ?thesis by simp
qed

text \<open>
  Claim C3 as it is written says that only the first of the two calls advances. In the
  ledger of two images below, the first call moves the active index from 0 to 1; after the
  first image is selected again, the second call on the same image moves it from 0 to 1
  once more.
\<close>

theorem approve_twice_counterexample:
  "approve pendingLedger = Some (exampleLedger\<lparr>qcIndex := 1\<rparr>)
   \<and> selectItem 0 (exampleLedger\<lparr>qcIndex := 1\<rparr>) = exampleLedger
   \<and> qcIndex exampleLedger = 0
   \<and> approve exampleLedger = Some (exampleLedger\<lparr>qcIndex := 1\<rparr>)"
  by (simp add: approve_def selectItem_def pendingLedger_def exampleLedger_def
        initialState_def exampleImage_def)

subsection \<open>Regenerating\<close>

lemma handleRegenerate_success:
  assumes "qcIndex s < length (images s)" and "backendUrl s \<noteq> []"
    and "generate (currentItem s) (regenerationRequest s) = Some newUrl"
  shows "handleRegenerate generate s =
           (s\<lparr>images := (images s)[qcIndex s :=
                        (currentItem s)\<lparr>oldUrl := Some (url (currentItem s)), url := newUrl,
                                        status := Pending\<rparr>],
              compareMode := True, isRegenerating := False\<rparr>, None)"
  using assms by (simp add: handleRegenerate_def currentItem_def regenerationRequest_def Let_def)

lemma handleRegenerate_failure:
  assumes "generate (currentItem s) (regenerationRequest s) = None"
  shows "images (fst (handleRegenerate generate s)) = images s"
    and "qcIndex s < length (images s) \<Longrightarrow> backendUrl s \<noteq> [] \<Longrightarrow>
         handleRegenerate generate s = (s\<lparr>isRegenerating := False\<rparr>, Some RegenerationFailed)"
  using assms by (simp_all add: handleRegenerate_def currentItem_def regenerationRequest_def Let_def)

text \<open>
  Claim C4. For the current image, whatever its status: when the generation call returns a
  new locator, the image afterwards has the old locator in \<open>oldUrl\<close>, the new one in \<open>url\<close>
  and the status pending, no alert is shown, and a following regeneration whose call fails
  leaves every image as it was after the success. When the generation call fails, the
  alert is shown and nothing changes but the flag \<open>isRegenerating\<close>, which \<open>finally\<close> clears.
\<close>

theorem handleRegenerate_success_and_failure:
  assumes "qcIndex s < length (images s)" and "backendUrl s \<noteq> []"
  shows "(generate (currentItem s) (regenerationRequest s) = Some newUrl \<longrightarrow>
            oldUrl (currentItem (fst (handleRegenerate generate s))) = Some (url (currentItem s))
          \<and> url (currentItem (fst (handleRegenerate generate s))) = newUrl
          \<and> status (currentItem (fst (handleRegenerate generate s))) = Pending
          \<and> currentItem (fst (handleRegenerate generate s)) =
              (currentItem s)\<lparr>oldUrl := Some (url (currentItem s)), url := newUrl, status := Pending\<rparr>
          \<and> snd (handleRegenerate generate s) = None
          \<and> (\<forall>g. g (currentItem (fst (handleRegenerate generate s)))
                    (regenerationRequest (fst (handleRegenerate generate s))) = None \<longrightarrow>
                 images (fst (handleRegenerate g (fst (handleRegenerate generate s))))
                   = images (fst (handleRegenerate generate s))
               \<and> snd (handleRegenerate g (fst (handleRegenerate generate s))) = Some RegenerationFailed))
       \<and> (generate (currentItem s) (regenerationRequest s) = None \<longrightarrow>
            handleRegenerate generate s = (s\<lparr>isRegenerating := False\<rparr>, Some RegenerationFailed)
          \<and> images (fst (handleRegenerate generate s)) = images s
          \<and> currentItem (fst (handleRegenerate generate s)) = currentItem s)"
proof (intro conjI impI allI)
  assume ok: "generate (currentItem s) (regenerationRequest s) = Some newUrl"
  let ?s1 = "fst (handleRegenerate generate s)"
  note r = handleRegenerate_success [where generate = generate and s = s, OF assms ok]
  from r assms show "oldUrl (currentItem ?s1) = Some (url (currentItem s))"
    by (simp add: currentItem_def)
  from r assms show "url (currentItem ?s1) = newUrl" by (simp add: currentItem_def)
  from r assms show "status (currentItem ?s1) = Pending" by (simp add: currentItem_def)
  from r assms show "currentItem ?s1 =
      (currentItem s)\<lparr>oldUrl := Some (url (currentItem s)), url := newUrl, status := Pending\<rparr>"
    by (simp add: currentItem_def)
  from r show "snd (handleRegenerate generate s) = None" by simp
  fix g :: "QCImage \<Rightarrow> Character list \<Rightarrow> string option"
  assume f: "g (currentItem ?s1) (regenerationRequest ?s1) = None"
  from handleRegenerate_failure(1) [where generate = g and s = ?s1, OF f]
  show "images (fst (handleRegenerate g ?s1)) = images ?s1" .
  from r assms have "qcIndex ?s1 < length (images ?s1)" "backendUrl ?s1 \<noteq> []" by simp_all
  from handleRegenerate_failure(2) [where generate = g and s = ?s1, OF f this]
  show "snd (handleRegenerate g ?s1) = Some RegenerationFailed" by simp
next
  assume f: "generate (currentItem s) (regenerationRequest s) = None"
  note r = handleRegenerate_failure(2) [where generate = generate and s = s, OF f assms]
  from r show "handleRegenerate generate s = (s\<lparr>isRegenerating := False\<rparr>, Some RegenerationFailed)" .
  from r show "images (fst (handleRegenerate generate s)) = images s" by simp
  from r show "currentItem (fst (handleRegenerate generate s)) = currentItem s"
    by (simp add: currentItem_def)
qed

theorem handleRegenerate_success_and_failure_witness:
  "qcIndex exampleLedger < length (images exampleLedger)
   \<and> backendUrl exampleLedger \<noteq> []
   \<and> status (currentItem exampleLedger) = Approved
   \<and> exampleGenerate (currentItem exampleLedger) (regenerationRequest exampleLedger)
       = Some ''blob:regenerated''
   \<and> oldUrl (currentItem (fst (handleRegenerate exampleGenerate exampleLedger)))
       = Some ''blob:scene_chap_1_2.png''
   \<and> url (currentItem (fst (handleRegenerate exampleGenerate exampleLedger))) = ''blob:regenerated''
   \<and> status (currentItem (fst (handleRegenerate exampleGenerate exampleLedger))) = Pending
   \<and> exampleGenerate (currentItem (fst (handleRegenerate exampleGenerate exampleLedger)))
         (regenerationRequest (fst (handleRegenerate exampleGenerate exampleLedger))) = None
   \<and> images (fst (handleRegenerate exampleGenerate (fst (handleRegenerate exampleGenerate exampleLedger))))
       = images (fst (handleRegenerate exampleGenerate exampleLedger))
   \<and> snd (handleRegenerate exampleGenerate (fst (handleRegenerate exampleGenerate exampleLedger)))
       = Some RegenerationFailed
   \<and> demoGenerate (currentItem exampleLedger) (regenerationRequest exampleLedger)
       = Some ''blob:scene_chap_1_2.png''
   \<and> oldUrl (currentItem (fst (handleRegenerate demoGenerate exampleLedger)))
       = Some ''blob:scene_chap_1_2.png''
   \<and> url (currentItem (fst (handleRegenerate demoGenerate exampleLedger)))
       = ''blob:scene_chap_1_2.png''
   \<and> status (currentItem (fst (handleRegenerate demoGenerate exampleLedger))) = Pending"
proof -
  let ?s1 = "fst (handleRegenerate exampleGenerate exampleLedger)"
  have h: "qcIndex exampleLedger < length (images exampleLedger)"
    and b: "backendUrl exampleLedger \<noteq> []"
    and st: "status (currentItem exampleLedger) = Approved"
    and u: "url (currentItem exampleLedger) = ''blob:scene_chap_1_2.png''"
    by (simp_all add: exampleLedger_def initialState_def exampleImage_def currentItem_def)
  from u have g: "exampleGenerate (currentItem exampleLedger) (regenerationRequest exampleLedger)
       = Some ''blob:regenerated''"
    by (simp add: exampleGenerate_def)
  note t = handleRegenerate_success_and_failure
             [where generate = exampleGenerate and s = exampleLedger
                and newUrl = "''blob:regenerated''", OF h b]
  from t g have u1: "url (currentItem ?s1) = ''blob:regenerated''" by blast
  then have g1: "exampleGenerate (currentItem ?s1) (regenerationRequest ?s1) = None"
    by (simp add: exampleGenerate_def)
  from t g g1 have "images (fst (handleRegenerate exampleGenerate ?s1)) = images ?s1
      \<and> snd (handleRegenerate exampleGenerate ?s1) = Some RegenerationFailed"
    by blast
  moreover from t g u have "oldUrl (currentItem ?s1) = Some ''blob:scene_chap_1_2.png''
      \<and> status (currentItem ?s1) = Pending"
    by simp
  moreover from u have dg: "demoGenerate (currentItem exampleLedger) (regenerationRequest exampleLedger)
       = Some ''blob:scene_chap_1_2.png''"
    by (simp add: demoGenerate_def)
  moreover from handleRegenerate_success_and_failure
             [where generate = demoGenerate and s = exampleLedger
                and newUrl = "''blob:scene_chap_1_2.png''", OF h b] dg u
  have "oldUrl (currentItem (fst (handleRegenerate demoGenerate exampleLedger)))
       = Some ''blob:scene_chap_1_2.png''
   \<and> url (currentItem (fst (handleRegenerate demoGenerate exampleLedger)))
       = ''blob:scene_chap_1_2.png''
   \<and> status (currentItem (fst (handleRegenerate demoGenerate exampleLedger))) = Pending"
    by simp
  ultimately show ?thesis using h b st g u1 g1 by blast
qed

subsection \<open>Loading a prompt dataset\<close>

text \<open>
  Claim C5. When \<open>JSON.parse\<close> rejects the content of the file, the handler shows the alert
  "Invalid JSON file." and returns the state it was given: the prompt dataset and every
  image are what they were.
\<close>

theorem handleJSONUpload_malformed_rejected:
  assumes "JSON_parse content = None"
  shows "handleJSONUpload JSON_parse (Some content) s = (s, Some InvalidJSON)
       \<and> promptData (fst (handleJSONUpload JSON_parse (Some content) s)) = promptData s
       \<and> images (fst (handleJSONUpload JSON_parse (Some content) s)) = images s"
  using assms by (simp add: handleJSONUpload_def)

theorem handleJSONUpload_malformed_rejected_witness:
  "exampleParse ''[{'' = None
   \<and> handleJSONUpload exampleParse (Some ''[{'') exampleLedger = (exampleLedger, Some InvalidJSON)
   \<and> promptData (fst (handleJSONUpload exampleParse (Some ''[{'') exampleLedger)) = promptData exampleLedger
   \<and> images (fst (handleJSONUpload exampleParse (Some ''[{'') exampleLedger)) = images exampleLedger"
proof -
  have p: "exampleParse ''[{'' = None" by (simp add: exampleParse_def exampleJson_def)
  from handleJSONUpload_malformed_rejected
         [where JSON_parse = exampleParse and content = "''[{''" and s = exampleLedger, OF p] p
  show ?thesis by simp
qed

text \<open>
  Claim C10. When a dataset is loaded, the pass over the images keeps their number, and an
  image whose name has no match in the new dataset is the same image afterwards, with the
  prompt the reviewer typed, its original prompt, its status and its locators.
\<close>

theorem handleJSONUpload_unmatched_unchanged:
  assumes "JSON_parse content = Some data"
  shows "length (images (fst (handleJSONUpload JSON_parse (Some content) s))) = length (images s)
       \<and> (\<forall>i < length (images s).
             matchPromptToImage (name (images s ! i)) data = None \<longrightarrow>
             images (fst (handleJSONUpload JSON_parse (Some content) s)) ! i = images s ! i)"
  using assms by (simp add: handleJSONUpload_def rematch_def)

theorem handleJSONUpload_unmatched_unchanged_witness:
  "exampleParse exampleJson = Some [\<lparr>outputAi = ''B arrives || Chap_1_3''\<rparr>]
   \<and> 1 < length (images exampleLedger)
   \<and> matchPromptToImage (name (images exampleLedger ! 1)) [\<lparr>outputAi = ''B arrives || Chap_1_3''\<rparr>] = None
   \<and> images (fst (handleJSONUpload exampleParse (Some exampleJson) exampleLedger)) ! 1
       = images exampleLedger ! 1
   \<and> prompt (images (fst (handleJSONUpload exampleParse (Some exampleJson) exampleLedger)) ! 1)
       = ''Empty corridor, night''"
proof -
  have p: "exampleParse exampleJson = Some [\<lparr>outputAi = ''B arrives || Chap_1_3''\<rparr>]"
    by (simp add: exampleParse_def exampleJson_def)
  have l: "1 < length (images exampleLedger)"
    and n: "name (images exampleLedger ! 1) = ''unrelated.png''"
    and pr: "prompt (images exampleLedger ! 1) = ''Empty corridor, night''"
    by (simp_all add: exampleLedger_def initialState_def exampleImage_def)
  have m: "matchPromptToImage ''unrelated.png'' [\<lparr>outputAi = ''B arrives || Chap_1_3''\<rparr>] = None"
    by code_simp
  from handleJSONUpload_unmatched_unchanged
         [where JSON_parse = exampleParse and content = exampleJson and s = exampleLedger, OF p]
       l n m pr p
  show ?thesis by simp
qed



subsection \<open>Editing and resetting the prompt\<close>

lemma editPrompts_result:
  "qcIndex s < length (images s) \<Longrightarrow>
   editPrompts ts s =
     Some (if ts = [] then s
           else s\<lparr>images := (images s)[qcIndex s := (images s ! qcIndex s)\<lparr>prompt := last ts\<rparr>]\<rparr>)"
proof (induction ts arbitrary: s)
  case Nil
  then show ?case by simp
next
  case (Cons t ts)
  let ?s1 = "s\<lparr>images := (images s)[qcIndex s := (images s ! qcIndex s)\<lparr>prompt := t\<rparr>]\<rparr>"
  from Cons.prems have e: "editPrompt t s = Some ?s1" by (simp add: editPrompt_def)
  from Cons.prems have "qcIndex ?s1 < length (images ?s1)" by simp
  from Cons.IH [OF this] e Cons.prems show ?case by simp
qed

text \<open>
  Claim C6. After any sequence of edits of the current image's prompt, Reset Prompt gives
  the state that Reset Prompt gives without the edits: the prompt is the original prompt
  the image had before them. The edits change neither the number of images nor the status
  or the original prompt of any image.
\<close>

theorem resetPrompt_after_edits:
  assumes "qcIndex s < length (images s)"
  shows "\<exists>s' s''. editPrompts ts s = Some s' \<and> resetPrompt s' = Some s''
           \<and> resetPrompt s = Some s''
           \<and> prompt (images s'' ! qcIndex s) = originalPrompt (images s ! qcIndex s)
           \<and> length (images s') = length (images s)
           \<and> (\<forall>j < length (images s).
                 status (images s' ! j) = status (images s ! j)
               \<and> originalPrompt (images s' ! j) = originalPrompt (images s ! j))"
proof (cases "ts = []")
  case True
  with assms show ?thesis by (simp add: resetPrompt_def Let_def)
next
  case False
  let ?s' = "s\<lparr>images := (images s)[qcIndex s := (images s ! qcIndex s)\<lparr>prompt := last ts\<rparr>]\<rparr>"
  from False assms have 1: "editPrompts ts s = Some ?s'" by (simp add: editPrompts_result)
  from assms have 2: "resetPrompt ?s' = resetPrompt s" by (simp add: resetPrompt_def Let_def)
  from assms have 3: "\<exists>s''. resetPrompt s = Some s''
        \<and> prompt (images s'' ! qcIndex s) = originalPrompt (images s ! qcIndex s)"
    by (simp add: resetPrompt_def Let_def)
  have 4: "\<forall>j < length (images s).
                 status (images ?s' ! j) = status (images s ! j)
               \<and> originalPrompt (images ?s' ! j) = originalPrompt (images s ! j)"
    using assms by (auto simp add: nth_list_update)
  from 1 2 3 4 show ?thesis by auto
qed

theorem resetPrompt_after_edits_witness:
  "qcIndex exampleLedger < length (images exampleLedger)
   \<and> (\<exists>s' s''. editPrompts [''A'', ''A h'', ''A hid''] exampleLedger = Some s'
          \<and> prompt (images s' ! 0) = ''A hid''
          \<and> resetPrompt s' = Some s''
          \<and> prompt (images s'' ! 0) = ''A hides''
          \<and> status (images s' ! 0) = Approved)"
proof -
  have h: "qcIndex exampleLedger < length (images exampleLedger)"
    and q: "qcIndex exampleLedger = 0"
    and o: "originalPrompt (images exampleLedger ! 0) = ''A hides''"
    and st: "status (images exampleLedger ! 0) = Approved"
    by (simp_all add: exampleLedger_def initialState_def exampleImage_def)
  have e: "editPrompts [''A'', ''A h'', ''A hid''] exampleLedger =
        Some (exampleLedger\<lparr>images := (images exampleLedger)
                [0 := (images exampleLedger ! 0)\<lparr>prompt := ''A hid''\<rparr>]\<rparr>)"
    using h q by (simp add: editPrompt_def)
  from resetPrompt_after_edits [OF h, of "[''A'', ''A h'', ''A hid'']"] q o st e h
  show ?thesis by auto
qed

subsection \<open>Importing images\<close>

text \<open>
  Claim C9 does not hold of the source. The id of a new image is the clock value plus the
  index of the file in its batch. A batch of two files at clock value 1000 gets the ids
  1000 and 1001; a batch of one file imported one millisecond later gets the id 1001 again.
\<close>

theorem handleImageUpload_id_collision:
  "map img_id (images (handleImageUpload (Some [(File ''c.png'', 1001, ''blob:3'')])
      (handleImageUpload (Some [(File ''a.png'', 1000, ''blob:1''), (File ''b.png'', 1000, ''blob:2'')])
         initialState)))
   = [1000, 1001, 1001]
   \<and> \<not> distinct (map img_id (images (handleImageUpload (Some [(File ''c.png'', 1001, ''blob:3'')])
      (handleImageUpload (Some [(File ''a.png'', 1000, ''blob:1''), (File ''b.png'', 1000, ''blob:2'')])
         initialState))))"
  by (simp add: handleImageUpload_def newImage_def initialState_def Let_def)

end
